theory Spec2Isabelle
  imports Complex_Main "HOL-Library.Word" "HOL-Library.Signed_Division"
begin

unbundle bit_operations_syntax

section \<open>Bytes, slices and errors\<close>

text \<open>
  A Go \<open>[]byte\<close> is a list of 8-bit words. Sizes and offsets have Go's type \<open>int\<close> and
  are integers here: they may be negative, as the code's own checks allow for. An offset
  computed inside a buffer that exists does not leave the 64-bit range and is computed
  exactly; where \<open>EncryptPage\<close> adds or subtracts sizes that only its caller
  determines, before any buffer bounds them, the sum or difference wraps around as Go's
  does (\<open>int_add\<close> and \<open>int_sub\<close> below). The page number is an
  \<open>int64\<close> and is kept as a 64-bit word, because it is incremented and then converted to
  \<open>uint32\<close>. A slice expression \<open>s[lo:hi]\<close> panics unless
  \<open>0 \<le> lo \<le> hi \<le> cap(s)\<close>; every buffer of the codec is allocated by \<open>make\<close>
  with its capacity equal to its length, and every slice taken from one runs to its end
  or is only read, so the capacity of a buffer is its length here.
\<close>

type_synonym byte = "8 word"
type_synonym bytes = "byte list"
type_synonym int64 = "64 word"

text \<open>
  Modelled from the spec: package \<open>internal/errors\<close> is not among the sources. The errors
  the code takes from it (\<open>OpenFileFailed\<close> to \<open>PlatformUnsupported\<close> below) are
  constructors under the names the code calls them by; section 7 of the specification
  lists them as error kinds. The constructors after them are the errors the code builds
  with \<open>fmt.Errorf\<close>, one for each message, with the values the message prints;
  \<open>Cancelled\<close> is the error of the cancelled context, and \<open>Panic\<close> a run-time panic
  (a slice out of range, a negative length, a call of a nil function, a division by zero).
\<close>

datatype error =
    Panic
  | OpenFileFailed string
  | StatFileFailed string
  | ReadFileFailed string
  | IncompleteRead
  | ErrAlreadyDecrypted
  | ErrDecryptHashVerificationFailed
  | DecryptCreateCipherFailed
  | DecodeKeyFailed
  | WriteOutputFailed
  | PlatformUnsupported string int
  | HashFunctionNil
  | InvalidPlainPageSize int int64
  | PlainPageSmallerThanReserve int int int64
  | InvalidPlainDataLength int int64
  | ReserveTooSmall int int int
  | HMACTooShort int int
  | InvalidKeyLength int int
  | InvalidSqliteHeader
  | GenerateSaltFailed
  | GenerateIVFailed int64
  | Cancelled

definition KeySize :: int where "KeySize = 32"
definition SaltSize :: int where "SaltSize = 16"
definition AESBlockSize :: int where "AESBlockSize = 16"
definition IVSize :: int where "IVSize = 16"

text \<open>
  Go's \<open>int\<close> has 64 bits on the platforms the program is built for, and its \<open>+\<close> and
  \<open>-\<close> wrap around in two's complement. \<open>MaxInt\<close> and \<open>MinInt\<close> are
  \<open>math.MaxInt\<close> and \<open>math.MinInt\<close>, and \<open>wrap_int x\<close> is the value of type \<open>int\<close>
  congruent to \<open>x\<close> modulo \<open>2 ^ 64\<close>. On operands that are values of type \<open>int\<close>,
  \<open>int_add a b\<close> and \<open>int_sub a b\<close> are Go's \<open>a + b\<close> and \<open>a - b\<close>. A list may be
  longer than any Go slice; on an operand outside the 64-bit range, which no Go value
  is, the two operations are the exact sum and difference.
\<close>

definition MaxInt :: int where "MaxInt = 2 ^ 63 - 1"
definition MinInt :: int where "MinInt = - (2 ^ 63)"

definition is_int :: "int \<Rightarrow> bool" where
  "is_int x \<longleftrightarrow> MinInt \<le> x \<and> x \<le> MaxInt"

definition wrap_int :: "int \<Rightarrow> int" where
  "wrap_int x = (x + 2 ^ 63) mod 2 ^ 64 - 2 ^ 63"

definition int_add :: "int \<Rightarrow> int \<Rightarrow> int" where
  "int_add a b = (if is_int a \<and> is_int b then wrap_int (a + b) else a + b)"

definition int_sub :: "int \<Rightarrow> int \<Rightarrow> int" where
  "int_sub a b = (if is_int a \<and> is_int b then wrap_int (a - b) else a - b)"

definition SQLiteHeader :: bytes where
  "SQLiteHeader = map (\<lambda>c. of_nat (of_char c)) ''SQLite format 3'' @ [0]"

text \<open>
  Go's built-in operations on slices: \<open>len\<close>, the slice expression \<open>s[lo:hi]\<close>,
  \<open>make([]byte, n)\<close>, \<open>copy(dst, src)\<close> (which copies as many elements as the shorter of
  the two holds) and \<open>copy(buf[lo:hi], src)\<close> seen from \<open>buf\<close>, which the destination
  aliases. \<open>andThen\<close> sequences two steps, the second of which runs only when the first
  did not fail. \<open>PutUint32\<close> is \<open>binary.LittleEndian.PutUint32\<close> on a fresh buffer of
  four bytes.
\<close>

definition len :: "'a list \<Rightarrow> int" where
  "len s = int (length s)"

definition andThen :: "error + 'a \<Rightarrow> ('a \<Rightarrow> error + 'b) \<Rightarrow> error + 'b" where
  "andThen m f = (case m of Inl e \<Rightarrow> Inl e | Inr x \<Rightarrow> f x)"

definition slice :: "'a list \<Rightarrow> int \<Rightarrow> int \<Rightarrow> error + 'a list" where
  "slice s lo hi =
     (if 0 \<le> lo \<and> lo \<le> hi \<and> hi \<le> len s
      then Inr (take (nat (hi - lo)) (drop (nat lo) s))
      else Inl Panic)"

definition make_bytes :: "int \<Rightarrow> error + bytes" where
  "make_bytes n = (if n < 0 then Inl Panic else Inr (replicate (nat n) 0))"

definition copy :: "'a list \<Rightarrow> 'a list \<Rightarrow> 'a list" where
  "copy dst src = take (length dst) src @ drop (length src) dst"

definition copy_slice :: "'a list \<Rightarrow> int \<Rightarrow> int \<Rightarrow> 'a list \<Rightarrow> error + 'a list" where
  "copy_slice buf lo hi src =
     (if 0 \<le> lo \<and> lo \<le> hi \<and> hi \<le> len buf
      then Inr (take (nat lo) buf
                @ copy (take (nat (hi - lo)) (drop (nat lo) buf)) src
                @ drop (nat hi) buf)
      else Inl Panic)"

definition PutUint32 :: "32 word \<Rightarrow> bytes" where
  "PutUint32 v = [ucast v, ucast (drop_bit 8 v), ucast (drop_bit 16 v), ucast (drop_bit 24 v)]"

section \<open>The cryptographic library\<close>

text \<open>
  The hash constructors, HMAC, PBKDF2, AES and the CBC mode belong to the Go standard
  library and to \<open>golang.org/x/crypto\<close>; the codec only calls them. They are taken as a
  record of functions, and what a theorem needs of them is a hypothesis of that theorem.
  \<^item> \<open>hmac_Sum h key msg\<close> is \<open>hmac.New(h, key)\<close>, every \<open>Write\<close> appended to \<open>msg\<close>
    in order, then \<open>Sum(nil)\<close>;
  \<^item> \<open>aes_NewCipher key\<close> tells whether \<open>aes.NewCipher\<close> returns a cipher rather than
    an error;
  \<^item> \<open>cbc_Encrypt key iv data\<close> and \<open>cbc_Decrypt key iv data\<close> are \<open>CryptBlocks\<close>
    of the CBC encrypter and decrypter on a whole number of blocks.
\<close>

datatype hasher = sha1_New | sha512_New

record crypto =
  hmac_Sum :: "hasher \<Rightarrow> bytes \<Rightarrow> bytes \<Rightarrow> bytes"
  pbkdf2_Key :: "bytes \<Rightarrow> bytes \<Rightarrow> int \<Rightarrow> int \<Rightarrow> hasher option \<Rightarrow> bytes"
  aes_NewCipher :: "bytes \<Rightarrow> bool"
  cbc_Encrypt :: "bytes \<Rightarrow> bytes \<Rightarrow> bytes \<Rightarrow> bytes"
  cbc_Decrypt :: "bytes \<Rightarrow> bytes \<Rightarrow> bytes \<Rightarrow> bytes"

text \<open>\<open>CryptBlocks\<close> panics when its input is not a whole number of blocks.\<close>

definition CryptBlocks :: "(bytes \<Rightarrow> bytes) \<Rightarrow> bytes \<Rightarrow> error + bytes" where
  "CryptBlocks mode buf = (if len buf smod AESBlockSize \<noteq> 0 then Inl Panic else Inr (mode buf))"

section \<open>Page primitives (common.go)\<close>

definition XorBytes :: "bytes \<Rightarrow> byte \<Rightarrow> bytes" where
  "XorBytes a b =
     foldl (\<lambda>result i. result[i := (a ! i) XOR b]) (replicate (length a) 0) [0..<length a]"

definition ValidateKey ::
  "crypto \<Rightarrow> bytes \<Rightarrow> bytes \<Rightarrow> bytes \<Rightarrow> hasher option \<Rightarrow> int \<Rightarrow> int \<Rightarrow> int
     \<Rightarrow> (bytes \<Rightarrow> bytes \<Rightarrow> bytes \<times> bytes) \<Rightarrow> error + bool" where
  "ValidateKey L page1 key salt hashFunc hmacSize reserve pageSize deriveKeys =
     (if len key \<noteq> KeySize then Inr False
      else
        let macKey = snd (deriveKeys key salt) in
        case hashFunc of
          None \<Rightarrow> Inl Panic
        | Some h \<Rightarrow>
            let dataEnd = pageSize - reserve + IVSize in
            andThen (slice page1 SaltSize dataEnd) (\<lambda>body.
            let pageNoBytes = PutUint32 1;
                calculatedMAC = hmac_Sum L h macKey (body @ pageNoBytes) in
            andThen (slice page1 dataEnd (dataEnd + hmacSize)) (\<lambda>storedMAC.
            Inr (calculatedMAC = storedMAC))))"

definition DecryptPage ::
  "crypto \<Rightarrow> bytes \<Rightarrow> bytes \<Rightarrow> bytes \<Rightarrow> int64 \<Rightarrow> hasher option \<Rightarrow> int \<Rightarrow> int \<Rightarrow> int
     \<Rightarrow> error + bytes" where
  "DecryptPage L pageBuf encKey macKey pageNum hashFunc hmacSize reserve pageSize =
     (let offset = (if pageNum = 0 then SaltSize else 0) in
      case hashFunc of
        None \<Rightarrow> Inl Panic
      | Some h \<Rightarrow>
          andThen (slice pageBuf offset (pageSize - reserve + IVSize)) (\<lambda>body.
          let pageNoBytes = PutUint32 (ucast (pageNum + 1));
              hashMac = hmac_Sum L h macKey (body @ pageNoBytes);
              hashMacStartOffset = pageSize - reserve + IVSize;
              hashMacEndOffset = hashMacStartOffset + hmacSize in
          andThen (slice pageBuf hashMacStartOffset hashMacEndOffset) (\<lambda>stored.
          if hashMac \<noteq> stored then Inl ErrDecryptHashVerificationFailed
          else
            andThen (slice pageBuf (pageSize - reserve) (pageSize - reserve + IVSize)) (\<lambda>iv.
            if \<not> aes_NewCipher L encKey then Inl DecryptCreateCipherFailed
            else
              andThen (make_bytes (pageSize - reserve - offset)) (\<lambda>fresh.
              andThen (slice pageBuf offset (pageSize - reserve)) (\<lambda>src.
              andThen (CryptBlocks (cbc_Decrypt L encKey iv) (copy fresh src)) (\<lambda>encrypted.
              andThen (slice pageBuf (pageSize - reserve) pageSize) (\<lambda>rest.
              Inr (encrypted @ rest)))))))))"

text \<open>
  \<open>EncryptPage\<close> checks its sizes before it uses them. The three computations that
  come before or within the checks (\<open>pageSize - SaltSize\<close>, \<open>len(pagePayload) - reserve\<close>
  and \<open>IVSize + hmacSize\<close>) are Go's wrapping operations. Once the checks have passed,
  \<open>tail[:IVSize]\<close> has been taken and \<open>pageBuf\<close> has been allocated,
  \<open>IVSize \<le> reserve \<le> len(pagePayload)\<close> and \<open>0 \<le> pageSize\<close>, so the offsets
  \<open>pageSize - reserve\<close> and \<open>pageSize - reserve + IVSize\<close> computed after that lie
  between \<open>- len(pagePayload)\<close> and \<open>pageSize\<close> and are exact.
\<close>

definition EncryptPage ::
  "crypto \<Rightarrow> bytes \<Rightarrow> bytes \<Rightarrow> bytes \<Rightarrow> int64 \<Rightarrow> hasher option \<Rightarrow> int \<Rightarrow> int \<Rightarrow> int
     \<Rightarrow> error + bytes" where
  "EncryptPage L plainPage encKey macKey pageNum hashFunc hmacSize reserve pageSize =
     (case hashFunc of
        None \<Rightarrow> Inl HashFunctionNil
      | Some h \<Rightarrow>
          let offset = (if pageNum = 0 then SaltSize else 0) in
          andThen
            (if pageNum = 0 then
               (if len plainPage = pageSize then
                  andThen (slice plainPage 0 SaltSize) (\<lambda>salt.
                  andThen (slice plainPage SaltSize (len plainPage)) (\<lambda>pagePayload.
                  Inr (pagePayload, Some salt)))
                else if len plainPage = int_sub pageSize SaltSize then Inr (plainPage, None)
                else Inl (InvalidPlainPageSize (len plainPage) pageNum))
             else
               (if len plainPage \<noteq> pageSize
                then Inl (InvalidPlainPageSize (len plainPage) pageNum)
                else Inr (plainPage, None)))
            (\<lambda>(pagePayload, salt).
          if len pagePayload < reserve
          then Inl (PlainPageSmallerThanReserve (len pagePayload) reserve pageNum)
          else
            let dataLen = int_sub (len pagePayload) reserve in
            if dataLen < 0 \<or> dataLen smod AESBlockSize \<noteq> 0
            then Inl (InvalidPlainDataLength dataLen pageNum)
            else if reserve < int_add IVSize hmacSize
            then Inl (ReserveTooSmall reserve IVSize hmacSize)
            else
              andThen (slice pagePayload 0 dataLen) (\<lambda>plainData.
              andThen (slice pagePayload dataLen (len pagePayload)) (\<lambda>tail.
              if \<not> aes_NewCipher L encKey then Inl DecryptCreateCipherFailed
              else
                andThen (make_bytes dataLen) (\<lambda>fresh.
                andThen (slice tail 0 IVSize) (\<lambda>iv.
                andThen (CryptBlocks (cbc_Encrypt L encKey iv) (copy fresh plainData))
                  (\<lambda>encryptedData.
                andThen (make_bytes pageSize) (\<lambda>pageBuf0.
                andThen
                  (case salt of
                     Some s \<Rightarrow> if pageNum = 0 then copy_slice pageBuf0 0 SaltSize s
                               else Inr pageBuf0
                   | None \<Rightarrow> Inr pageBuf0) (\<lambda>pageBuf1.
                andThen (copy_slice pageBuf1 offset (len pageBuf1) encryptedData) (\<lambda>pageBuf2.
                andThen (copy_slice pageBuf2 (pageSize - reserve) (len pageBuf2) tail)
                  (\<lambda>pageBuf3.
                andThen (slice pageBuf3 offset (pageSize - reserve + IVSize)) (\<lambda>body.
                let pageNoBytes = PutUint32 (ucast (pageNum + 1));
                    calculatedMAC = hmac_Sum L h macKey (body @ pageNoBytes) in
                if len calculatedMAC < hmacSize
                then Inl (HMACTooShort (len calculatedMAC) hmacSize)
                else
                  andThen (slice calculatedMAC 0 hmacSize) (\<lambda>tag.
                  copy_slice pageBuf3 (pageSize - reserve + IVSize) (len pageBuf3) tag)))))))))))))"


section \<open>The Windows v4 encryptor (V4\_en.go)\<close>

text \<open>
  Modelled from the spec: the constant \<open>HmacSHA512Size\<close> of package \<open>windows\<close> is
  declared in a file that is not among the sources; section 3.1 of the specification gives
  HMAC\_SIZE as 64 bytes. The two other constants declared there, \<open>PageSize\<close> and
  \<open>V4IterCount\<close>, have no fixed value in the specification and are parameters of the
  constructor.
\<close>

definition HmacSHA512Size :: int where "HmacSHA512Size = 64"

record V4Encryptor =
  v4_iterCount :: int
  v4_hmacSize :: int
  v4_hashFunc :: "hasher option"
  v4_reserve :: int
  v4_pageSize :: int
  v4_version :: string

definition NewV4Encryptor :: "int \<Rightarrow> int \<Rightarrow> V4Encryptor" where
  "NewV4Encryptor PageSize V4IterCount =
     (let hashFunc = Some sha512_New;
          hmacSize = HmacSHA512Size;
          reserve0 = IVSize + hmacSize;
          reserve = (if reserve0 smod AESBlockSize \<noteq> 0
                     then ((reserve0 sdiv AESBlockSize) + 1) * AESBlockSize
                     else reserve0)
      in \<lparr> v4_iterCount = V4IterCount, v4_hmacSize = hmacSize, v4_hashFunc = hashFunc,
           v4_reserve = reserve, v4_pageSize = PageSize, v4_version = ''Windows v4'' \<rparr>)"

definition deriveKeys :: "crypto \<Rightarrow> V4Encryptor \<Rightarrow> bytes \<Rightarrow> bytes \<Rightarrow> bytes \<times> bytes" where
  "deriveKeys L e key salt =
     (let encKey = pbkdf2_Key L key salt (v4_iterCount e) KeySize (v4_hashFunc e);
          macSalt = XorBytes salt 0x3a;
          macKey = pbkdf2_Key L encKey macSalt 2 KeySize (v4_hashFunc e)
      in (encKey, macKey))"

section \<open>The factory\<close>

definition NewEncryptor :: "int \<Rightarrow> int \<Rightarrow> string \<Rightarrow> int \<Rightarrow> error + V4Encryptor" where
  "NewEncryptor PageSize V4IterCount platform version =
     (if platform = ''windows'' \<and> version = 4
      then Inr (NewV4Encryptor PageSize V4IterCount)
      else Inl (PlatformUnsupported platform version))"

section \<open>Files, the random source and the output sink\<close>

text \<open>
  A file is its contents, whether \<open>Stat\<close> fails on it, the offset of the first byte the
  device cannot deliver (if any), and the read offset of the open handle. The run-time
  record holds \<open>encoding/hex.DecodeString\<close> and the files that can be opened, by path;
  \<open>os_Open\<close> gives a handle that reads from the start.
\<close>

datatype io_error = EOF | ErrUnexpectedEOF | ErrDevice

record File =
  file_data :: bytes
  stat_fails :: bool
  read_fault :: "nat option"
  offset :: nat

record runtime =
  hex_DecodeString :: "string \<Rightarrow> bytes option"
  file_at :: "string \<Rightarrow> File option"

definition os_Open :: "runtime \<Rightarrow> string \<Rightarrow> File option" where
  "os_Open R path = map_option (\<lambda>f. f\<lparr>offset := 0\<rparr>) (file_at R path)"

text \<open>
  \<open>io.ReadFull(f, buf)\<close> fills \<open>buf\<close> from the read offset. It returns no error when
  the buffer was filled (an empty buffer is filled at once), \<open>EOF\<close> when nothing was read
  at the end of the file, \<open>ErrUnexpectedEOF\<close> when the file ended after some bytes, and
  the device's error when the device failed first.
\<close>

definition io_ReadFull :: "File \<Rightarrow> bytes \<Rightarrow> nat \<times> io_error option \<times> bytes \<times> File" where
  "io_ReadFull f buf =
     (let rest = drop (offset f) (file_data f);
          readable = (case read_fault f of
                        None \<Rightarrow> length rest
                      | Some bad \<Rightarrow> min (length rest) (bad - offset f));
          got = take (min (length buf) readable) rest;
          n = length got;
          f' = f\<lparr>offset := offset f + n\<rparr>;
          buf' = got @ drop n buf
      in if n = length buf then (n, None, buf', f')
         else if readable < length rest then (n, Some ErrDevice, buf', f')
         else if n = 0 then (n, Some EOF, buf', f')
         else (n, Some ErrUnexpectedEOF, buf', f'))"

text \<open>
  The random source is the list of bytes it will deliver; \<open>rand.Read\<close> fails when the
  list is exhausted.
\<close>

definition rand_Read :: "bytes \<Rightarrow> nat \<Rightarrow> (bytes \<times> bytes) option" where
  "rand_Read rng n = (if length rng < n then None else Some (take n rng, drop n rng))"

text \<open>
  The output sink is what has been written and the room left (unbounded when there is no
  limit); a write that does not fit writes what fits and fails.
\<close>

record Writer =
  written :: bytes
  room :: "nat option"

definition Write :: "Writer \<Rightarrow> bytes \<Rightarrow> Writer \<times> bool" where
  "Write w p =
     (case room w of
        None \<Rightarrow> (w\<lparr>written := written w @ p\<rparr>, True)
      | Some k \<Rightarrow>
          if length p \<le> k
          then (w\<lparr>written := written w @ p, room := Some (k - length p)\<rparr>, True)
          else (w\<lparr>written := written w @ take k p, room := Some 0\<rparr>, False))"

text \<open>The loop \<open>for i := lo; i < hi; i++ { buf[i] = 0 }\<close>, with a non-negative \<open>lo\<close>.\<close>

definition zero_fill :: "bytes \<Rightarrow> int \<Rightarrow> int \<Rightarrow> error + bytes" where
  "zero_fill buf lo hi =
     (if lo < hi
      then (if hi \<le> len buf
            then Inr (take (nat lo) buf @ replicate (nat (hi - lo)) 0 @ drop (nat hi) buf)
            else Inl Panic)
      else Inr buf)"

section \<open>The image opener (common.go)\<close>

record DBFile =
  Path :: string
  Salt :: bytes
  TotalPages :: int
  FirstPage :: bytes

definition OpenDBFile :: "runtime \<Rightarrow> string \<Rightarrow> int \<Rightarrow> error + DBFile" where
  "OpenDBFile R dbPath pageSize =
     (case os_Open R dbPath of
        None \<Rightarrow> Inl (OpenFileFailed dbPath)
      | Some fp \<Rightarrow>
          if stat_fails fp then Inl (StatFileFailed dbPath)
          else
            let fileSize = len (file_data fp) in
            if pageSize = 0 then Inl Panic
            else
              let totalPages0 = fileSize sdiv pageSize;
                  totalPages = (if fileSize smod pageSize > 0 then totalPages0 + 1
                                else totalPages0) in
              andThen (make_bytes pageSize) (\<lambda>buffer0.
              case io_ReadFull fp buffer0 of (n, err, buffer, fp') \<Rightarrow>
                if err \<noteq> None then Inl (ReadFileFailed dbPath)
                else if int n \<noteq> pageSize then Inl IncompleteRead
                else
                  andThen (slice buffer 0 (len SQLiteHeader - 1)) (\<lambda>start.
                  andThen (slice SQLiteHeader 0 (len SQLiteHeader - 1)) (\<lambda>magic.
                  if start = magic then Inl ErrAlreadyDecrypted
                  else
                    andThen (slice buffer 0 SaltSize) (\<lambda>salt.
                    Inr \<lparr> Path = dbPath, Salt = salt, TotalPages = totalPages,
                          FirstPage = buffer \<rparr>)))))"


section \<open>Encrypt (V4\_en.go)\<close>

text \<open>
  \<open>Encrypt\<close> is one Go function; it is embedded in four parts that follow its text:
  \<^item> \<open>stamp_tail\<close>: the three statements that take the tail of a page buffer from
    \<open>start\<close>, fill its first \<open>IVSize\<close> bytes from the random source and zero the rest;
    they occur twice, for page 0 and in the loop;
  \<^item> \<open>encrypt_first_page\<close>: from the decoding of the key to \<open>EncryptPage\<close> of page 0,
    the part that writes nothing;
  \<^item> \<open>encrypt_step\<close>: the body of the \<open>for\<close> loop, which either leaves the loop
    (a \<open>return\<close> or a \<open>break\<close>, with the error returned and the sink) or hands the next
    state to the following iteration;
  \<^item> \<open>encrypt_pages\<close>: the loop itself, which has no exit condition of its own.
  The cancellation handle is the set of page numbers at which \<open>ctx.Done()\<close> is found
  closed.
\<close>

definition stamp_tail :: "bytes \<Rightarrow> int \<Rightarrow> bytes \<Rightarrow> error \<Rightarrow> error + bytes \<times> bytes" where
  "stamp_tail buf start rng failure =
     andThen (slice buf start (len buf)) (\<lambda>tail.
     andThen (slice tail 0 IVSize) (\<lambda>ivbuf.
     case rand_Read rng (length ivbuf) of
       None \<Rightarrow> Inl failure
     | Some (iv, rng') \<Rightarrow>
         andThen (copy_slice tail 0 IVSize iv) (\<lambda>tail1.
         andThen (zero_fill tail1 IVSize (len tail1)) (\<lambda>tail2.
         andThen (copy_slice buf start (len buf) tail2) (\<lambda>buf'.
         Inr (buf', rng'))))))"

definition encrypt_first_page ::
  "crypto \<Rightarrow> runtime \<Rightarrow> V4Encryptor \<Rightarrow> string \<Rightarrow> string \<Rightarrow> bytes
     \<Rightarrow> error + bytes \<times> File \<times> bytes \<times> bytes \<times> bytes" where
  "encrypt_first_page L R e plainDB hexKey rng =
     (case hex_DecodeString R hexKey of
        None \<Rightarrow> Inl DecodeKeyFailed
      | Some key \<Rightarrow>
          if len key \<noteq> KeySize then Inl (InvalidKeyLength KeySize (len key))
          else
            (case os_Open R plainDB of
              None \<Rightarrow> Inl (OpenFileFailed plainDB)
            | Some plainFile \<Rightarrow>
                if stat_fails plainFile then Inl (StatFileFailed plainDB)
                else
                  andThen (make_bytes (len SQLiteHeader)) (\<lambda>header0.
                  case io_ReadFull plainFile header0 of (n0, err0, header, plainFile1) \<Rightarrow>
                    if err0 \<noteq> None then Inl (ReadFileFailed plainDB)
                    else if header \<noteq> SQLiteHeader then Inl InvalidSqliteHeader
                    else
                      andThen (make_bytes (v4_pageSize e - len SQLiteHeader))
                        (\<lambda>firstPayload0.
                      case io_ReadFull plainFile1 firstPayload0
                      of (n, err, firstPayload1, plainFile2) \<Rightarrow>
                        if err \<noteq> None \<and> err \<noteq> Some ErrUnexpectedEOF \<and> err \<noteq> Some EOF
                        then Inl (ReadFileFailed plainDB)
                        else
                          andThen (zero_fill firstPayload1 (int n) (len firstPayload1))
                            (\<lambda>firstPayload.
                          andThen (make_bytes SaltSize) (\<lambda>salt0.
                          case rand_Read rng (length salt0) of
                            None \<Rightarrow> Inl GenerateSaltFailed
                          | Some (salt, rng1) \<Rightarrow>
                              case deriveKeys L e key salt of (encKey, macKey) \<Rightarrow>
                              andThen (make_bytes (SaltSize + len firstPayload))
                                (\<lambda>firstPlain0.
                              andThen (copy_slice firstPlain0 0 SaltSize salt)
                                (\<lambda>firstPlain1.
                              andThen (copy_slice firstPlain1 SaltSize (len firstPlain1)
                                         firstPayload) (\<lambda>firstPlain2.
                              andThen (stamp_tail firstPlain2
                                         (len firstPlain2 - v4_reserve e) rng1
                                         (GenerateIVFailed 0)) (\<lambda>(firstPlain, rng2).
                              andThen (EncryptPage L firstPlain encKey macKey 0
                                         (v4_hashFunc e) (v4_hmacSize e) (v4_reserve e)
                                         (v4_pageSize e)) (\<lambda>encryptedPage.
                              Inr (encryptedPage, plainFile2, rng2, encKey, macKey)
                              )))))))))))"

record enc_state =
  st_file :: File
  st_rand :: bytes
  st_out :: Writer
  st_buf :: bytes
  st_page :: int64

definition encrypt_step ::
  "crypto \<Rightarrow> V4Encryptor \<Rightarrow> (int64 \<Rightarrow> bool) \<Rightarrow> string \<Rightarrow> bytes \<Rightarrow> bytes \<Rightarrow> enc_state
     \<Rightarrow> (error option \<times> Writer) + enc_state" where
  "encrypt_step L e ctx_Done plainDB encKey macKey s =
     (if ctx_Done (st_page s) then Inl (Some Cancelled, st_out s)
      else
        case io_ReadFull (st_file s) (st_buf s) of (n, readErr, buf1, file1) \<Rightarrow>
          if readErr = Some EOF then Inl (None, st_out s)
          else if readErr = Some ErrDevice then Inl (Some (ReadFileFailed plainDB), st_out s)
          else if n = 0 \<and> readErr = Some ErrUnexpectedEOF then Inl (None, st_out s)
          else
            (case zero_fill buf1 (int n) (v4_pageSize e) of
              Inl err \<Rightarrow> Inl (Some err, st_out s)
            | Inr buf2 \<Rightarrow>
                if list_all (\<lambda>b. b = 0) buf2 then
                  (case Write (st_out s) buf2 of (out1, ok) \<Rightarrow>
                     if \<not> ok then Inl (Some WriteOutputFailed, out1)
                     else if readErr = Some ErrUnexpectedEOF then Inl (None, out1)
                     else Inr (s\<lparr>st_file := file1, st_out := out1, st_buf := buf2,
                                 st_page := st_page s + 1\<rparr>))
                else
                  (case stamp_tail buf2 (v4_pageSize e - v4_reserve e) (st_rand s)
                          (GenerateIVFailed (st_page s)) of
                     Inl err \<Rightarrow> Inl (Some err, st_out s)
                   | Inr (buf3, rng1) \<Rightarrow>
                       (case EncryptPage L buf3 encKey macKey (st_page s) (v4_hashFunc e)
                              (v4_hmacSize e) (v4_reserve e) (v4_pageSize e) of
                         Inl err \<Rightarrow> Inl (Some err, st_out s)
                       | Inr encryptedPage \<Rightarrow>
                           case Write (st_out s) encryptedPage of (out1, ok) \<Rightarrow>
                             if \<not> ok then Inl (Some WriteOutputFailed, out1)
                             else if readErr = Some ErrUnexpectedEOF then Inl (None, out1)
                             else Inr \<lparr> st_file = file1, st_rand = rng1, st_out = out1,
                                        st_buf = buf3, st_page = st_page s + 1 \<rparr>))))"

partial_function (option) encrypt_pages ::
  "crypto \<Rightarrow> V4Encryptor \<Rightarrow> (int64 \<Rightarrow> bool) \<Rightarrow> string \<Rightarrow> bytes \<Rightarrow> bytes \<Rightarrow> enc_state
     \<Rightarrow> (error option \<times> Writer) option" where
  "encrypt_pages L e ctx_Done plainDB encKey macKey s =
     (case encrypt_step L e ctx_Done plainDB encKey macKey s of
        Inl r \<Rightarrow> Some r
      | Inr s' \<Rightarrow> encrypt_pages L e ctx_Done plainDB encKey macKey s')"

definition Encrypt ::
  "crypto \<Rightarrow> runtime \<Rightarrow> V4Encryptor \<Rightarrow> (int64 \<Rightarrow> bool) \<Rightarrow> string \<Rightarrow> string \<Rightarrow> bytes \<Rightarrow> Writer
     \<Rightarrow> (error option \<times> Writer) option" where
  "Encrypt L R e ctx_Done plainDB hexKey rng output =
     (case encrypt_first_page L R e plainDB hexKey rng of
        Inl err \<Rightarrow> Some (Some err, output)
      | Inr (encryptedPage, plainFile, rng', encKey, macKey) \<Rightarrow>
          case Write output encryptedPage of (out1, ok) \<Rightarrow>
            if \<not> ok then Some (Some WriteOutputFailed, out1)
            else
              (case make_bytes (v4_pageSize e) of
                Inl err \<Rightarrow> Some (Some err, out1)
              | Inr pageBuf \<Rightarrow>
                  encrypt_pages L e ctx_Done plainDB encKey macKey
                    \<lparr> st_file = plainFile, st_rand = rng', st_out = out1, st_buf = pageBuf,
                      st_page = 1 \<rparr>))"


section \<open>The layout and the library contracts, as the specification words them\<close>

text \<open>
  \<open>sub xs a b\<close> is the specification's \<open>xs[a .. b]\<close>, and \<open>LE32 n\<close> the four
  low-order bytes of \<open>n\<close>, least significant first. The definitions below follow
  sections 3.2 to 3.4 of the specification: the offset of the cipher region, the HMAC
  input of a page (for the page of index \<open>unat pageNum\<close>, tagged with that index plus
  one), the place of the stored tag, and the assembled encrypted page.
\<close>

definition sub :: "'a list \<Rightarrow> nat \<Rightarrow> nat \<Rightarrow> 'a list" where
  "sub xs a b = take (b - a) (drop a xs)"

definition salt_offset :: "int64 \<Rightarrow> nat" where
  "salt_offset pageNum = (if pageNum = 0 then 16 else 0)"

definition LE32 :: "nat \<Rightarrow> bytes" where
  "LE32 n = [of_nat (n mod 256), of_nat (n div 256 mod 256),
             of_nat (n div 65536 mod 256), of_nat (n div 16777216 mod 256)]"

definition hmac_input :: "bytes \<Rightarrow> int64 \<Rightarrow> int \<Rightarrow> int \<Rightarrow> bytes" where
  "hmac_input page pageNum reserve pageSize =
     sub page (salt_offset pageNum) (nat (pageSize - reserve) + 16)
     @ LE32 (unat pageNum + 1)"

definition stored_tag :: "bytes \<Rightarrow> int \<Rightarrow> int \<Rightarrow> int \<Rightarrow> bytes" where
  "stored_tag page hmacSize reserve pageSize =
     sub page (nat (pageSize - reserve) + 16) (nat (pageSize - reserve) + 16 + nat hmacSize)"

definition sealed_page ::
  "crypto \<Rightarrow> bytes \<Rightarrow> bytes \<Rightarrow> bytes \<Rightarrow> bytes \<Rightarrow> int64 \<Rightarrow> hasher \<Rightarrow> nat \<Rightarrow> nat \<Rightarrow> bytes" where
  "sealed_page L pre payload encKey macKey pageNum h m r =
     (let d = length payload - r;
          iv = take 16 (drop d payload);
          enc = cbc_Encrypt L encKey iv (take d payload);
          mac = hmac_Sum L h macKey (enc @ iv @ PutUint32 (ucast (pageNum + 1)))
      in pre @ enc @ iv @ take m mac @ drop (d + 16 + m) payload)"

definition page_prefix :: "bytes \<Rightarrow> int64 \<Rightarrow> int \<Rightarrow> bytes" where
  "page_prefix plainPage pageNum pageSize =
     (if pageNum \<noteq> 0 then []
      else if len plainPage = pageSize then take 16 plainPage
      else replicate 16 0)"

definition page_payload :: "bytes \<Rightarrow> int64 \<Rightarrow> int \<Rightarrow> bytes" where
  "page_payload plainPage pageNum pageSize =
     (if pageNum = 0 \<and> len plainPage = pageSize then drop 16 plainPage else plainPage)"

text \<open>
  The first \<open>n\<close> bytes of a file are readable when the file has them and the device
  delivers them; \<open>next_page f q\<close> is the page of \<open>q\<close> bytes at the read offset of
  \<open>f\<close>, zero-filled when the file ends before it does, and \<open>page_at f q k\<close> the page
  of index \<open>k\<close> of the file.
\<close>

definition first_bytes_readable :: "File \<Rightarrow> nat \<Rightarrow> bool" where
  "first_bytes_readable fp n \<longleftrightarrow>
     n \<le> length (file_data fp)
     \<and> (case read_fault fp of None \<Rightarrow> True | Some bad \<Rightarrow> n \<le> bad)"

definition next_page :: "File \<Rightarrow> nat \<Rightarrow> bytes" where
  "next_page f q =
     take q (drop (offset f) (file_data f))
     @ replicate (q - (length (file_data f) - offset f)) 0"

definition page_at :: "File \<Rightarrow> nat \<Rightarrow> nat \<Rightarrow> bytes" where
  "page_at f q k = next_page (f\<lparr>offset := k * q\<rparr>) q"

text \<open>
  The errors of \<open>EncryptPage\<close> that report a page length, reserve or alignment violation
  (the specification's \<^emph>\<open>InvalidPageShape\<close>), and the two input lengths it accepts.
\<close>

fun InvalidPageShape :: "error \<Rightarrow> bool" where
  "InvalidPageShape (InvalidPlainPageSize n p) = True"
| "InvalidPageShape (PlainPageSmallerThanReserve n r p) = True"
| "InvalidPageShape (InvalidPlainDataLength n p) = True"
| "InvalidPageShape (ReserveTooSmall r i m) = True"
| "InvalidPageShape e = False"

definition shape_accepted :: "bytes \<Rightarrow> int64 \<Rightarrow> int \<Rightarrow> bool" where
  "shape_accepted plainPage pageNum pageSize \<longleftrightarrow>
     len plainPage = pageSize \<or> (pageNum = 0 \<and> len plainPage = pageSize - SaltSize)"

text \<open>
  What the theorems assume of the library: \<open>aes.NewCipher\<close> accepts keys of 16, 24 and
  32 bytes and no others; CBC decryption undoes CBC encryption under the same key and IV
  on whole blocks, and encryption keeps the length; an HMAC is as long as the digest of its
  hash (\<open>sha1.Size\<close> is 20, \<open>sha512.Size\<close> is 64); PBKDF2 returns a key of the length
  asked for.
\<close>

definition hash_Size :: "hasher \<Rightarrow> nat" where
  "hash_Size h = (case h of sha1_New \<Rightarrow> 20 | sha512_New \<Rightarrow> 64)"

definition aes_contract :: "crypto \<Rightarrow> bool" where
  "aes_contract L \<longleftrightarrow> (\<forall>key. aes_NewCipher L key = (length key \<in> {16, 24, 32}))"

definition hmac_contract :: "crypto \<Rightarrow> bool" where
  "hmac_contract L \<longleftrightarrow> (\<forall>h key msg. length (hmac_Sum L h key msg) = hash_Size h)"

definition pbkdf2_contract :: "crypto \<Rightarrow> bool" where
  "pbkdf2_contract L \<longleftrightarrow>
     (\<forall>password salt iter keyLen h. 0 \<le> keyLen \<longrightarrow>
        length (pbkdf2_Key L password salt iter keyLen h) = nat keyLen)"

definition cbc_contract :: "crypto \<Rightarrow> bool" where
  "cbc_contract L \<longleftrightarrow>
     (\<forall>key iv buf. aes_NewCipher L key \<and> length iv = 16 \<and> length buf mod 16 = 0 \<longrightarrow>
        length (cbc_Encrypt L key iv buf) = length buf
        \<and> cbc_Decrypt L key iv (cbc_Encrypt L key iv buf) = buf)"

section \<open>A small instance of the library\<close>

text \<open>
  An instance of the library that meets the contracts, on which the definitions can be
  evaluated: the MAC and the key derivation repeat the sum of their input bytes, the
  cipher adds one to every byte.
\<close>

definition toy_crypto :: crypto where
  "toy_crypto =
     \<lparr> hmac_Sum = (\<lambda>h key msg. replicate (hash_Size h) (sum_list (key @ msg))),
       pbkdf2_Key = (\<lambda>password salt iter keyLen h.
          replicate (nat keyLen) (sum_list (password @ salt) + of_int iter)),
       aes_NewCipher = (\<lambda>key. length key \<in> {16, 24, 32}),
       cbc_Encrypt = (\<lambda>key iv buf. map (\<lambda>b. b + 1) buf),
       cbc_Decrypt = (\<lambda>key iv buf. map (\<lambda>b. b - 1) buf) \<rparr>"

text \<open>
  \<open>hex_decode\<close> decodes pairs of hexadecimal digits, as \<open>hex.DecodeString\<close> does; the
  run-time instance has a plaintext image of three pages of 112 bytes, the second all
  zero, and a file that does not start with the header.
\<close>

definition hex_digit :: "char \<Rightarrow> nat option" where
  "hex_digit c =
     (let n = (of_char c :: nat)
      in if 48 \<le> n \<and> n \<le> 57 then Some (n - 48)
         else if 97 \<le> n \<and> n \<le> 102 then Some (n - 87)
         else if 65 \<le> n \<and> n \<le> 70 then Some (n - 55)
         else None)"

fun hex_decode :: "string \<Rightarrow> bytes option" where
  "hex_decode [] = Some []"
| "hex_decode [c] = None"
| "hex_decode (c # d # cs) =
     (case (hex_digit c, hex_digit d, hex_decode cs) of
        (Some a, Some b, Some r) \<Rightarrow> Some (of_nat (16 * a + b) # r)
      | _ \<Rightarrow> None)"

definition demo_plain :: bytes where
  "demo_plain = SQLiteHeader @ replicate 96 0x05 @ replicate 112 0 @ replicate 112 0x09"

definition demo_image :: bytes where
  "demo_image = 0x07 # replicate 111 0x07 @ replicate 50 0x01"

definition demo_runtime :: runtime where
  "demo_runtime =
     \<lparr> hex_DecodeString = hex_decode,
       file_at = (\<lambda>path.
          if path = ''plain.db''
          then Some \<lparr> file_data = demo_plain, stat_fails = False, read_fault = None, offset = 0 \<rparr>
          else if path = ''image.db''
          then Some \<lparr> file_data = demo_image, stat_fails = False, read_fault = None, offset = 0 \<rparr>
          else None) \<rparr>"

definition demo_hexKey :: string where
  "demo_hexKey = ''1111111111111111111111111111111111111111111111111111111111111111''"

definition demo_state :: enc_state where
  "demo_state =
     \<lparr> st_file = \<lparr> file_data = demo_plain, stat_fails = False, read_fault = None,
                    offset = 112 \<rparr>,
       st_rand = [],
       st_out = \<lparr> written = [], room = None \<rparr>,
       st_buf = replicate 112 0x09,
       st_page = 1 \<rparr>"

definition demo_encKey :: bytes where "demo_encKey = replicate 32 0x42"

definition demo_macKey :: bytes where "demo_macKey = replicate 32 0x24"

definition demo_page :: bytes where
  "demo_page = replicate 16 0x41 @ replicate 16 0x11 @ replicate 32 0"

definition demo_sealed :: bytes where
  "demo_sealed = replicate 16 0x42 @ replicate 16 0x11 @ replicate 20 0xB2 @ replicate 12 0"

definition demo_first :: bytes where
  "demo_first = replicate 16 0x07 @ replicate 16 0x42 @ replicate 16 0x11
                @ replicate 20 0xB1 @ replicate 12 0"

definition demo_deriveKeys :: "bytes \<Rightarrow> bytes \<Rightarrow> bytes \<times> bytes" where
  "demo_deriveKeys key salt = (demo_encKey, demo_macKey)"

definition demo_tampered :: bytes where
  "demo_tampered = replicate 16 0x42 @ replicate 16 0x11 @ replicate 20 0xB3 @ replicate 12 0"

section \<open>Slices, copies and the library instance\<close>

lemma andThen_Inr [simp]: "andThen (Inr x) f = f x"
  by (simp add: andThen_def)

lemma andThen_Inl [simp]: "andThen (Inl e) f = Inl e"
  by (simp add: andThen_def)

lemma wrap_int_exact: "is_int x \<Longrightarrow> wrap_int x = x"
  by (simp add: is_int_def MinInt_def MaxInt_def wrap_int_def)

lemma int_sub_exact: "0 \<le> b \<Longrightarrow> b \<le> a \<Longrightarrow> int_sub a b = a - b"
  by (simp add: int_sub_def wrap_int_exact is_int_def MinInt_def MaxInt_def)

lemma int_sub_overflow:
  assumes "0 \<le> a" "b \<le> a"
  shows "int_sub a b = a - b \<or> int_sub a b < 0"
proof (cases "is_int a \<and> is_int b")
  case False
  then show ?thesis by (auto simp: int_sub_def)
next
  case True
  show ?thesis
  proof (cases "a - b \<le> MaxInt")
    case True
    with assms have "is_int (a - b)" by (simp add: is_int_def MinInt_def)
    with \<open>is_int a \<and> is_int b\<close> show ?thesis by (simp add: int_sub_def wrap_int_exact)
  next
    case False
    with True have "2 ^ 63 \<le> a - b" "a - b < 2 ^ 64"
      by (simp_all add: is_int_def MinInt_def MaxInt_def)
    have "(a - b + 2 ^ 63) mod 2 ^ 64 = (a - b - 2 ^ 63 + 2 ^ 64) mod (2 ^ 64 :: int)"
      by (simp add: ac_simps)
    also have "\<dots> = (a - b - 2 ^ 63) mod 2 ^ 64"
      by (rule mod_add_self2)
    also have "\<dots> = a - b - 2 ^ 63"
      using \<open>2 ^ 63 \<le> a - b\<close> \<open>a - b < 2 ^ 64\<close> by (intro mod_pos_pos_trivial) simp_all
    finally have "wrap_int (a - b) = a - b - 2 ^ 64"
      by (simp add: wrap_int_def)
    with \<open>a - b < 2 ^ 64\<close> True show ?thesis by (simp add: int_sub_def)
  qed
qed

lemma int_add_exact: "0 \<le> a \<Longrightarrow> a + b \<le> MaxInt \<Longrightarrow> int_add a b = a + b"
  by (simp add: int_add_def wrap_int_exact is_int_def MinInt_def MaxInt_def)

lemma int_add_le: "0 \<le> a \<Longrightarrow> 0 \<le> b \<Longrightarrow> int_add a b \<le> a + b"
proof -
  assume "0 \<le> a" "0 \<le> b"
  then have "(a + b + 2 ^ 63) mod 2 ^ 64 \<le> a + b + 2 ^ 63"
    by (intro zmod_le_nonneg_dividend) simp
  then show ?thesis by (simp add: int_add_def wrap_int_def)
qed

lemma slice_in_range:
  "0 \<le> lo \<Longrightarrow> lo \<le> hi \<Longrightarrow> hi \<le> len s \<Longrightarrow>
     slice s lo hi = Inr (take (nat (hi - lo)) (drop (nat lo) s))"
  by (simp add: slice_def)

lemma copy_slice_to_end:
  "0 \<le> lo \<Longrightarrow> lo + len src \<le> len buf \<Longrightarrow>
     copy_slice buf lo (len buf) src
       = Inr (take (nat lo) buf @ src @ drop (nat lo + length src) buf)"
  by (simp add: copy_slice_def copy_def len_def add.commute)

lemma smod_nonneg: "0 \<le> a \<Longrightarrow> a smod (16::int) = a mod 16"
  by (simp add: smod_mod_positive)

lemma CryptBlocks_aligned:
  assumes "length buf mod 16 = 0"
  shows "CryptBlocks mode buf = Inr (mode buf)"
proof -
  have "int (length buf) mod 16 = 0" using assms by presburger
  then show ?thesis
    by (simp add: CryptBlocks_def len_def AESBlockSize_def smod_nonneg)
qed

lemma LE32_bits:
  "LE32 n = [of_nat (take_bit 8 n), of_nat (take_bit 8 (drop_bit 8 n)),
             of_nat (take_bit 8 (drop_bit 16 n)), of_nat (take_bit 8 (drop_bit 24 n))]"
  by (simp add: LE32_def take_bit_eq_mod drop_bit_eq_div)

lemma PutUint32_of_nat: "PutUint32 (of_nat n) = LE32 n"
  unfolding PutUint32_def LE32_bits
  apply (simp)
  apply (intro conjI; rule bit_word_eqI)
  apply (auto simp: bit_simps)
  done

lemma page_tag_LE32: "PutUint32 (ucast (pageNum + 1 :: int64)) = LE32 (unat pageNum + 1)"
proof -
  have "pageNum + 1 = (of_nat (unat pageNum + 1) :: int64)" by simp
  moreover have "ucast (of_nat k :: int64) = (of_nat k :: 32 word)" for k
    by (rule bit_word_eqI) (auto simp: bit_simps)
  ultimately have "(ucast (pageNum + 1) :: 32 word) = of_nat (unat pageNum + 1)"
    by metis
  then show ?thesis by (simp only: PutUint32_of_nat)
qed

lemmas demo_simps =
  toy_crypto_def demo_encKey_def demo_macKey_def demo_page_def demo_sealed_def
  demo_tampered_def demo_first_def demo_deriveKeys_def hash_Size_def hmac_input_def
  stored_tag_def salt_offset_def sub_def LE32_def len_def sum_list_replicate
  KeySize_def IVSize_def SaltSize_def AESBlockSize_def

lemma demo_hexKey_decodes: "hex_decode demo_hexKey = Some (replicate 32 0x11)"
  by (simp add: demo_hexKey_def hex_digit_def eval_nat_numeral)

lemma demo_lengths:
  "length SQLiteHeader = 16" "length demo_plain = 336" "length demo_image = 162"
  by (simp_all add: SQLiteHeader_def demo_plain_def demo_image_def)

lemma toy_crypto_contracts:
  "aes_contract toy_crypto" "cbc_contract toy_crypto" "hmac_contract toy_crypto"
  by (simp_all add: aes_contract_def cbc_contract_def hmac_contract_def toy_crypto_def comp_def)

lemma toy_pbkdf2_contract: "pbkdf2_contract toy_crypto"
  by (simp add: pbkdf2_contract_def toy_crypto_def)

lemma XorBytes_prefix:
  "k \<le> length (a :: bytes) \<Longrightarrow>
     foldl (\<lambda>result i. result[i := (a ! i) XOR b]) (replicate (length a) 0) [0..<k]
       = map (\<lambda>x. x XOR b) (take k a) @ replicate (length a - k) 0"
proof (induction k)
  case 0
  then show ?case by simp
next
  case (Suc k)
  let ?f = "\<lambda>result i. result[i := (a ! i) XOR b]"
  from Suc.prems have k: "k < length a" by simp
  then have r: "replicate (length a - k) (0 :: byte) = 0 # replicate (length a - Suc k) 0"
    by (simp add: Suc_diff_Suc flip: replicate_Suc)
  have "foldl ?f (replicate (length a) 0) [0..<Suc k]
          = (map (\<lambda>x. x XOR b) (take k a) @ replicate (length a - k) 0)[k := (a ! k) XOR b]"
    using Suc.IH k by simp
  also have "\<dots> = map (\<lambda>x. x XOR b) (take k a) @ ((a ! k) XOR b) # replicate (length a - Suc k) 0"
    using k by (simp add: list_update_append) (subst r, simp)
  also have "\<dots> = map (\<lambda>x. x XOR b) (take (Suc k) a) @ replicate (length a - Suc k) 0"
    using k by (simp add: take_Suc_conv_app_nth)
  finally show ?case .
qed

lemma XorBytes_map: "XorBytes a b = map (\<lambda>x. x XOR b) a"
  using XorBytes_prefix [of "length a" a b] by (simp add: XorBytes_def)

lemma length_sealed_page:
  assumes "16 + m \<le> r" "r \<le> length payload"
    and "\<forall>msg. m \<le> length (hmac_Sum L h macKey msg)"
    and "cbc_contract L" "aes_NewCipher L encKey" "(length payload - r) mod 16 = 0"
  shows "length (sealed_page L pre payload encKey macKey pageNum h m r)
           = length pre + length payload"
  using assms
  by (simp add: sealed_page_def Let_def cbc_contract_def)


section \<open>What EncryptPage and DecryptPage compute\<close>

lemma EncryptPage_sealed:
  assumes shape: "len plainPage = pageSize \<and> (pageNum = 0 \<longrightarrow> SaltSize \<le> pageSize)
                  \<or> pageNum = 0 \<and> len plainPage = pageSize - SaltSize"
    and h0: "0 \<le> hmacSize"
    and rv: "IVSize + hmacSize \<le> reserve"
            "reserve \<le> len (page_payload plainPage pageNum pageSize)"
    and al: "(len (page_payload plainPage pageNum pageSize) - reserve) mod 16 = 0"
    and key: "aes_NewCipher L encKey"
    and cbc: "cbc_contract L"
    and hm: "\<forall>msg. hmacSize \<le> len (hmac_Sum L h macKey msg)"
  shows "EncryptPage L plainPage encKey macKey pageNum (Some h) hmacSize reserve pageSize
     = Inr (sealed_page L (page_prefix plainPage pageNum pageSize)
              (page_payload plainPage pageNum pageSize) encKey macKey pageNum h
              (nat hmacSize) (nat reserve))"
proof -
  define payload where "payload = page_payload plainPage pageNum pageSize"
  define pre where "pre = page_prefix plainPage pageNum pageSize"
  define r where "r = nat reserve"
  define m where "m = nat hmacSize"
  define d where "d = length payload - r"
  define f where "f = length pre"
  define tail where "tail = drop d payload"
  define iv where "iv = take 16 tail"
  define plainData where "plainData = take d payload"
  define enc where "enc = cbc_Encrypt L encKey iv plainData"
  define mac where "mac = hmac_Sum L h macKey (enc @ iv @ PutUint32 (ucast (pageNum + 1)))"
  have rr: "reserve = int r" and hh: "hmacSize = int m" and r16: "16 + m \<le> r"
    using h0 rv by (auto simp: r_def m_def IVSize_def)
  have lp: "length payload = d + r"
    using rv(2) by (simp add: d_def payload_def [symmetric] len_def rr)
  have lenp: "len payload = int d + int r" by (simp add: len_def lp)
  have dal: "d mod 16 = 0"
    using al by (simp add: payload_def [symmetric] lenp rr) presburger
  have idal: "int d mod 16 = 0" using dal by presburger
  have ltail: "length tail = r" by (simp add: tail_def lp)
  have liv: "length iv = 16" using r16 by (simp add: iv_def ltail)
  have lpd: "length plainData = d" by (simp add: plainData_def lp)
  have lenc: "length enc = d"
    using cbc key liv lpd dal by (simp add: cbc_contract_def enc_def)
  have lmac: "m \<le> length mac"
    using hm by (simp add: mac_def hh len_def)
  have lm: "\<not> len mac < int m" using lmac by (simp add: len_def)
  have s1: "slice payload 0 (int d) = Inr plainData"
    by (simp add: slice_def len_def lp plainData_def)
  have s2: "slice payload (int d) (int d + int r) = Inr tail"
    by (simp add: slice_def len_def lp tail_def)
  have s3: "slice tail 0 16 = Inr iv"
    using r16 by (simp add: slice_def len_def ltail iv_def)
  have c0: "copy (replicate d 0) plainData = plainData"
    by (simp add: copy_def lpd)
  have cb: "CryptBlocks (cbc_Encrypt L encKey iv) plainData = Inr enc"
    using dal by (simp add: CryptBlocks_aligned lpd enc_def)
  have c1: "copy_slice (pre @ replicate (d + r) 0) (int f) (int f + (int d + int r)) enc
              = Inr (pre @ enc @ replicate r 0)"
    using copy_slice_to_end [of "int f" enc "pre @ replicate (d + r) (0::byte)"]
    by (simp add: len_def lenc f_def)
  have c2: "copy_slice (pre @ enc @ replicate r 0) (int f + int d) (int f + (int d + int r)) tail
              = Inr (pre @ enc @ tail)"
    using copy_slice_to_end [of "int f + int d" tail "pre @ enc @ replicate r 0"]
    by (simp add: len_def lenc ltail f_def nat_add_distrib)
  have s4: "slice (pre @ enc @ tail) (int f) (int f + int d + 16) = Inr (enc @ iv)"
    using r16 by (simp add: slice_def len_def lenc ltail iv_def nat_add_distrib f_def)
  have s5: "slice mac 0 (int m) = Inr (take m mac)"
    using lmac by (simp add: slice_def len_def)
  have c3: "copy_slice (pre @ enc @ tail) (int f + int d + 16) (int f + (int d + int r)) (take m mac)
              = Inr (pre @ enc @ iv @ take m mac @ drop (16 + m) tail)"
    using copy_slice_to_end [of "int f + int d + 16" "take m mac" "pre @ enc @ tail"] r16 lmac
    by (simp add: len_def lenc ltail iv_def nat_add_distrib f_def)
  have l1: "len (pre @ enc @ replicate r 0) = int f + (int d + int r)"
    "len (pre @ enc @ tail) = int f + (int d + int r)"
    "len (pre @ replicate (d + r) (0::byte)) = int f + (int d + int r)" "len tail = int r"
    by (simp_all add: len_def lenc ltail f_def)
  have i1: "int_sub (int d + int r) (int r) = int d"
    by (simp add: int_sub_exact)
  have i2: "\<not> int r < int_add 16 (int m)"
    using int_add_le [of 16 "int m"] r16 by simp
  have i3: "int_sub (16 + (int d + int r)) 16 = int d + int r"
    by (simp add: int_sub_exact)
  have goal: "sealed_page L pre payload encKey macKey pageNum h m r
                = pre @ enc @ iv @ take m mac @ drop (16 + m) tail"
    by (simp add: sealed_page_def Let_def mac_def enc_def iv_def tail_def plainData_def
          d_def ac_simps)
  consider (later) "pageNum \<noteq> 0" "len plainPage = pageSize"
    | (salted) "pageNum = 0" "len plainPage = pageSize" "16 \<le> pageSize"
    | (bare) "pageNum = 0" "len plainPage = pageSize - 16" "len plainPage \<noteq> pageSize"
    using shape by (auto simp: SaltSize_def)
  then have "EncryptPage L plainPage encKey macKey pageNum (Some h) hmacSize reserve pageSize
          = Inr (pre @ enc @ iv @ take m mac @ drop (16 + m) tail)"
  proof cases
    case later
    have p: "payload = plainPage" "pre = []" "f = 0"
      using later by (simp_all add: payload_def pre_def f_def page_payload_def page_prefix_def)
    have pS: "pageSize = int d + int r" using later p lenp by simp
    show ?thesis
      using later key r16 c1 c2 s4 c3 l1 s1 s2 lenp unfolding p
      by (simp add: EncryptPage_def Let_def pS rr hh SaltSize_def IVSize_def AESBlockSize_def
          s3 c0 cb s5 make_bytes_def smod_nonneg idal lm i1 i2
          mac_def [symmetric] nat_int_add)
  next
    case salted
    have lpp: "length plainPage = 16 + (d + r)"
      using salted lp by (simp add: payload_def page_payload_def len_def)
    have p: "payload = drop 16 plainPage" "pre = take 16 plainPage" "f = 16"
      using salted lpp by (simp_all add: payload_def pre_def f_def page_payload_def page_prefix_def)
    have pS: "pageSize = 16 + (int d + int r)" using salted(2) lpp by (simp add: len_def)
    have lplain: "len plainPage = 16 + (int d + int r)" using lpp by (simp add: len_def)
    have t1: "slice plainPage 0 16 = Inr pre" "slice plainPage 16 (16 + (int d + int r)) = Inr payload"
      using lpp by (simp_all add: slice_def len_def p)
    have mk: "copy_slice (replicate (16 + (d + r)) 0) 0 16 pre = Inr (pre @ replicate (d + r) 0)"
      using lpp by (simp add: copy_slice_def copy_def len_def p)
    have ln: "len (replicate (16 + (d + r)) (0::byte)) = 16 + (int d + int r)"
      by (simp add: len_def)
    have mac0: "hmac_Sum L h macKey (enc @ iv @ PutUint32 1) = mac"
      using salted(1) by (simp add: mac_def)
    show ?thesis
      using salted(1) key r16 c1 c2 s4 c3 l1 s1 s2 lenp unfolding p(3)
      by (simp add: EncryptPage_def Let_def pS lplain rr hh SaltSize_def IVSize_def AESBlockSize_def
          s3 c0 cb s5 make_bytes_def smod_nonneg idal lm t1 mk ln i1 i2
          mac0 nat_int_add nat_add_distrib)
  next
    case bare
    have p: "payload = plainPage" "pre = replicate 16 0" "f = 16"
      using bare by (simp_all add: payload_def pre_def f_def page_payload_def page_prefix_def)
    have pS: "pageSize = 16 + (int d + int r)" using bare(2) lenp p(1) by simp
    have z: "replicate (16 + (d + r)) (0::byte) = pre @ replicate (d + r) 0"
      by (simp add: p replicate_add)
    have mac0: "hmac_Sum L h macKey (enc @ iv @ PutUint32 1) = mac"
      using bare(1) by (simp add: mac_def)
    show ?thesis
      using bare(1) key r16 c1 c2 s4 c3 l1 s1 s2 lenp unfolding p(3) p(1)
      by (simp add: EncryptPage_def Let_def pS rr hh SaltSize_def IVSize_def AESBlockSize_def
          s3 c0 cb s5 make_bytes_def smod_nonneg idal lm z i1 i2 i3
          mac0 nat_int_add nat_add_distrib)
  qed
  then show ?thesis
    by (simp add: goal payload_def [symmetric] pre_def [symmetric] m_def [symmetric] r_def [symmetric])
qed

lemma DecryptPage_outcome:
  assumes h0: "0 \<le> hmacSize"
    and rv: "IVSize + hmacSize \<le> reserve" "reserve \<le> pageSize"
    and sz: "pageSize \<le> len pageBuf"
  shows "DecryptPage L pageBuf encKey macKey pageNum (Some h) hmacSize reserve pageSize =
     (if hmac_Sum L h macKey (hmac_input pageBuf pageNum reserve pageSize)
           \<noteq> stored_tag pageBuf hmacSize reserve pageSize
      then Inl ErrDecryptHashVerificationFailed
      else if \<not> aes_NewCipher L encKey then Inl DecryptCreateCipherFailed
      else if nat (pageSize - reserve) < salt_offset pageNum then Inl Panic
      else if (nat (pageSize - reserve) - salt_offset pageNum) mod 16 \<noteq> 0 then Inl Panic
      else Inr (cbc_Decrypt L encKey
                  (sub pageBuf (nat (pageSize - reserve)) (nat (pageSize - reserve) + 16))
                  (sub pageBuf (salt_offset pageNum) (nat (pageSize - reserve)))
                @ sub pageBuf (nat (pageSize - reserve)) (nat pageSize)))"
proof -
  define d where "d = nat (pageSize - reserve)"
  define r where "r = nat reserve"
  define m where "m = nat hmacSize"
  define f where "f = salt_offset pageNum"
  have rr: "reserve = int r" and hh: "hmacSize = int m" and r16: "16 + m \<le> r"
    and pS: "pageSize = int d + int r"
    using h0 rv by (auto simp: r_def m_def d_def IVSize_def)
  have lp: "d + r \<le> length pageBuf" using sz by (simp add: pS len_def)
  have f: "f = 0 \<or> f = 16" by (simp add: f_def salt_offset_def)
  have off: "(if pageNum = 0 then SaltSize else 0) = int f"
    by (simp add: f_def salt_offset_def SaltSize_def)
  have s1: "slice pageBuf (int f) (int d + 16) = Inr (sub pageBuf f (d + 16))"
    using f lp r16 by (auto simp: slice_def len_def sub_def nat_add_distrib)
  have s2: "slice pageBuf (int d + 16) (int d + 16 + int m) = Inr (sub pageBuf (d + 16) (d + 16 + m))"
    using lp r16 by (simp add: slice_def len_def sub_def nat_add_distrib)
  have s3: "slice pageBuf (int d) (int d + 16) = Inr (sub pageBuf d (d + 16))"
    using lp r16 by (simp add: slice_def len_def sub_def nat_add_distrib)
  have s4: "slice pageBuf (int d) (int d + int r) = Inr (sub pageBuf d (d + r))"
    using lp r16 by (simp add: slice_def len_def sub_def nat_add_distrib)
  have mk: "make_bytes (int d - int f) = (if d < f then Inl Panic else Inr (replicate (d - f) 0))"
    by (simp add: make_bytes_def nat_diff_distrib')
  have s5: "f \<le> d \<Longrightarrow> slice pageBuf (int f) (int d) = Inr (sub pageBuf f d)"
    using lp by (simp add: slice_def len_def sub_def nat_diff_distrib')
  have c0: "f \<le> d \<Longrightarrow> copy (replicate (d - f) 0) (sub pageBuf f d) = sub pageBuf f d"
    using lp by (simp add: copy_def sub_def)
  have cb: "f \<le> d \<Longrightarrow> CryptBlocks mode (sub pageBuf f d)
              = (if (d - f) mod 16 \<noteq> 0 then Inl Panic else Inr (mode (sub pageBuf f d)))" for mode
  proof -
    assume "f \<le> d"
    then have l: "length (sub pageBuf f d) = d - f" using lp by (simp add: sub_def)
    have "(int (d - f) mod 16 \<noteq> 0) = ((d - f) mod 16 \<noteq> 0)" by presburger
    then show ?thesis
      by (simp add: CryptBlocks_def len_def l AESBlockSize_def smod_nonneg)
  qed
  have "DecryptPage L pageBuf encKey macKey pageNum (Some h) hmacSize reserve pageSize =
     (if hmac_Sum L h macKey (sub pageBuf f (d + 16) @ PutUint32 (ucast (pageNum + 1)))
           \<noteq> sub pageBuf (d + 16) (d + 16 + m)
      then Inl ErrDecryptHashVerificationFailed
      else if \<not> aes_NewCipher L encKey then Inl DecryptCreateCipherFailed
      else if d < f then Inl Panic
      else if (d - f) mod 16 \<noteq> 0 then Inl Panic
      else Inr (cbc_Decrypt L encKey (sub pageBuf d (d + 16)) (sub pageBuf f d)
                @ sub pageBuf d (d + r)))"
    by (simp add: DecryptPage_def Let_def off pS rr hh IVSize_def s1 s2 s3 s4 mk s5 c0 cb)
  moreover have "nat pageSize = d + r" by (simp add: pS nat_int_add)
  ultimately show ?thesis
    by (simp only: hmac_input_def stored_tag_def d_def [symmetric] f_def [symmetric]
          m_def [symmetric] page_tag_LE32 [symmetric])
qed

section \<open>The per-page round trip\<close>

text \<open>
  C1. For 32-byte keys, a page number of at least 1 and a plaintext page of \<open>pageSize\<close>
  bytes, \<open>DecryptPage\<close> applied to the result of \<open>EncryptPage\<close> succeeds and returns
  the original page in its first \<open>pageSize - reserve\<close> bytes, with the IV bytes that
  follow unchanged. The parameters are those of a codec: the HMAC size is the digest
  size of the hash, the reserve holds the IV and the tag, and the data region is a whole
  number of blocks. What the reserve holds after the IV plays no part.
\<close>

theorem round_trip:
  assumes keys: "length encKey = 32" "length macKey = 32"
    and lib: "aes_contract L" "cbc_contract L" "hmac_contract L"
    and pn: "1 \<le> sint pageNum"
    and sz: "len plainPage = pageSize"
    and hs: "hmacSize = int (hash_Size h)"
    and rv: "IVSize + hmacSize \<le> reserve" "reserve \<le> pageSize"
    and al: "(pageSize - reserve) mod AESBlockSize = 0"
  shows "\<exists>enc dec.
     EncryptPage L plainPage encKey macKey pageNum (Some h) hmacSize reserve pageSize = Inr enc
     \<and> DecryptPage L enc encKey macKey pageNum (Some h) hmacSize reserve pageSize = Inr dec
     \<and> sub dec 0 (nat (pageSize - reserve)) = sub plainPage 0 (nat (pageSize - reserve))
     \<and> sub dec (nat (pageSize - reserve)) (nat (pageSize - reserve) + 16)
         = sub plainPage (nat (pageSize - reserve)) (nat (pageSize - reserve) + 16)"
proof -
  define d where "d = nat (pageSize - reserve)"
  define r where "r = nat reserve"
  define m where "m = hash_Size h"
  define iv where "iv = take 16 (drop d plainPage)"
  define ct where "ct = cbc_Encrypt L encKey iv (take d plainPage)"
  define mac where "mac = hmac_Sum L h macKey (ct @ iv @ PutUint32 (ucast (pageNum + 1)))"
  define enc where "enc = ct @ iv @ mac @ drop (d + 16 + m) plainPage"
  have p0: "pageNum \<noteq> 0" using pn by auto
  have key: "aes_NewCipher L encKey" using lib(1) keys(1) by (simp add: aes_contract_def)
  have rr: "reserve = int r" and r16: "16 + m \<le> r" and pS: "pageSize = int d + int r"
    and lp: "length plainPage = d + r" and nh: "nat hmacSize = m"
    using sz hs rv by (auto simp: r_def d_def m_def IVSize_def len_def)
  have dal: "d mod 16 = 0" using al pS rr by (simp add: AESBlockSize_def) presburger
  have liv: "length iv = 16" using r16 lp by (simp add: iv_def)
  have lct: "length ct = d"
    using lib(2) key liv dal lp by (simp add: cbc_contract_def ct_def)
  have lmac: "length mac = m" using lib(3) by (simp add: hmac_contract_def mac_def m_def)
  have pay: "page_payload plainPage pageNum pageSize = plainPage"
    "page_prefix plainPage pageNum pageSize = []"
    using p0 by (simp_all add: page_payload_def page_prefix_def)
  have "EncryptPage L plainPage encKey macKey pageNum (Some h) hmacSize reserve pageSize
          = Inr (sealed_page L [] plainPage encKey macKey pageNum h (nat hmacSize) (nat reserve))"
    using EncryptPage_sealed [of plainPage pageSize pageNum hmacSize reserve L encKey h macKey]
      sz hs rv al key lib p0
    by (simp add: pay AESBlockSize_def hmac_contract_def len_def)
  moreover have "sealed_page L [] plainPage encKey macKey pageNum h (nat hmacSize) (nat reserve) = enc"
    using lmac by (simp add: sealed_page_def Let_def nh rr lp enc_def mac_def ct_def iv_def)
  ultimately have E: "EncryptPage L plainPage encKey macKey pageNum (Some h) hmacSize reserve pageSize
          = Inr enc" by simp
  have lenc: "length enc = d + r" using r16 by (simp add: enc_def lct liv lmac lp)
  have so: "salt_offset pageNum = 0" using p0 by (simp add: salt_offset_def)
  have hi: "hmac_input enc pageNum reserve pageSize = ct @ iv @ PutUint32 (ucast (pageNum + 1))"
    by (simp add: hmac_input_def so sub_def pS rr enc_def lct liv page_tag_LE32)
  have st: "stored_tag enc hmacSize reserve pageSize = mac"
    by (simp add: stored_tag_def sub_def pS rr nh enc_def lct liv lmac)
  have iv': "sub enc d (d + 16) = iv" by (simp add: sub_def enc_def lct liv)
  have ct': "sub enc 0 d = ct" by (simp add: sub_def enc_def lct)
  have dec: "cbc_Decrypt L encKey iv ct = take d plainPage"
    using lib(2) key liv dal lp by (simp add: cbc_contract_def ct_def)
  have nd: "nat (pageSize - reserve) = d" "nat pageSize = d + r"
    by (simp add: d_def) (simp add: pS nat_int_add)
  have "DecryptPage L enc encKey macKey pageNum (Some h) hmacSize reserve pageSize =
     (if hmac_Sum L h macKey (hmac_input enc pageNum reserve pageSize)
           \<noteq> stored_tag enc hmacSize reserve pageSize
      then Inl ErrDecryptHashVerificationFailed
      else if \<not> aes_NewCipher L encKey then Inl DecryptCreateCipherFailed
      else if nat (pageSize - reserve) < salt_offset pageNum then Inl Panic
      else if (nat (pageSize - reserve) - salt_offset pageNum) mod 16 \<noteq> 0 then Inl Panic
      else Inr (cbc_Decrypt L encKey
                  (sub enc (nat (pageSize - reserve)) (nat (pageSize - reserve) + 16))
                  (sub enc (salt_offset pageNum) (nat (pageSize - reserve)))
                @ sub enc (nat (pageSize - reserve)) (nat pageSize)))"
    by (rule DecryptPage_outcome) (use hs rv lenc pS in \<open>simp_all add: len_def\<close>)
  then have D: "DecryptPage L enc encKey macKey pageNum (Some h) hmacSize reserve pageSize
          = Inr (take d plainPage @ sub enc d (d + r))"
    unfolding hi st nd so using key dal by (simp add: mac_def iv' ct' dec)
  have "sub (take d plainPage @ sub enc d (d + r)) 0 d = sub plainPage 0 d"
    using lp by (simp add: sub_def)
  moreover have "sub (take d plainPage @ sub enc d (d + r)) d (d + 16) = sub plainPage d (d + 16)"
    using lp r16 by (simp add: sub_def enc_def lct liv iv_def)
  ultimately show ?thesis
    using E D by (simp add: d_def [symmetric])
qed

theorem round_trip_witness:
  "\<exists>enc dec.
     EncryptPage toy_crypto demo_page demo_encKey demo_macKey 1 (Some sha1_New) 20 48 64
       = Inr enc
     \<and> DecryptPage toy_crypto enc demo_encKey demo_macKey 1 (Some sha1_New) 20 48 64 = Inr dec
     \<and> sub dec 0 16 = sub demo_page 0 16
     \<and> sub dec 16 32 = sub demo_page 16 32"
  using round_trip [of demo_encKey demo_macKey toy_crypto 1 demo_page 64 20 sha1_New 48]
  by (simp add: toy_crypto_contracts len_def demo_page_def demo_encKey_def demo_macKey_def
        hash_Size_def IVSize_def AESBlockSize_def)


text \<open>
  The hypothesis \<open>hmacSize = hash_Size h\<close> of the round trip is needed.
  \<open>DecryptPage\<close> compares the whole digest returned by \<open>mac.Sum\<close> with the
  \<open>hmacSize\<close> bytes stored in the page, whereas \<open>EncryptPage\<close> stores the digest
  cut to \<open>hmacSize\<close> bytes. With a tag shorter than the digest the two byte slices
  differ in length, so \<open>bytes.Equal\<close> is false and every page is rejected. Both
  configurations in the sources (SHA-512 with \<open>HmacSHA512Size\<close> in
  \<open>NewV4Encryptor\<close>, SHA-1 with 20 bytes in the round-trip test) use the full digest.
\<close>

lemma DecryptPage_truncated_tag:
  assumes hm: "hmac_contract L"
    and h0: "0 \<le> hmacSize" and short: "hmacSize < int (hash_Size h)"
    and rv: "IVSize + hmacSize \<le> reserve" "reserve \<le> pageSize"
    and sz: "pageSize \<le> len pageBuf"
  shows "DecryptPage L pageBuf encKey macKey pageNum (Some h) hmacSize reserve pageSize
           = Inl ErrDecryptHashVerificationFailed"
proof -
  have "length (stored_tag pageBuf hmacSize reserve pageSize) = nat hmacSize"
    using h0 rv sz by (simp add: stored_tag_def sub_def len_def IVSize_def)
  moreover have "length (hmac_Sum L h macKey (hmac_input pageBuf pageNum reserve pageSize))
                   = hash_Size h"
    using hm by (simp add: hmac_contract_def)
  ultimately have "hmac_Sum L h macKey (hmac_input pageBuf pageNum reserve pageSize)
                     \<noteq> stored_tag pageBuf hmacSize reserve pageSize"
    using short h0 by (metis nat_int nat_less_iff less_irrefl)
  then show ?thesis
    using h0 rv sz by (simp add: DecryptPage_outcome)
qed


section \<open>Key validation and the HMAC check of decryption\<close>

lemma ValidateKey_outcome:
  assumes h0: "0 \<le> hmacSize"
    and rv: "IVSize + hmacSize \<le> reserve" "reserve \<le> pageSize"
    and sz: "pageSize \<le> len page1"
    and k: "len key = KeySize"
  shows "ValidateKey L page1 key salt (Some h) hmacSize reserve pageSize dk =
     Inr (hmac_Sum L h (snd (dk key salt)) (hmac_input page1 0 reserve pageSize)
            = stored_tag page1 hmacSize reserve pageSize)"
proof -
  define d where "d = nat (pageSize - reserve)"
  define r where "r = nat reserve"
  define m where "m = nat hmacSize"
  have rr: "reserve = int r" and hh: "hmacSize = int m" and r16: "16 + m \<le> r"
    and pS: "pageSize = int d + int r"
    using h0 rv by (auto simp: r_def m_def d_def IVSize_def)
  have lp: "d + r \<le> length page1" using sz by (simp add: pS len_def)
  have s1: "slice page1 16 (int d + 16) = Inr (sub page1 16 (d + 16))"
    using lp r16 by (simp add: slice_def len_def sub_def nat_add_distrib)
  have s2: "slice page1 (int d + 16) (int d + 16 + int m) = Inr (sub page1 (d + 16) (d + 16 + m))"
    using lp r16 by (simp add: slice_def len_def sub_def nat_add_distrib)
  have one: "PutUint32 1 = LE32 (unat (0 :: int64) + 1)"
    using page_tag_LE32 [of 0] by simp
  have "ValidateKey L page1 key salt (Some h) hmacSize reserve pageSize dk =
     Inr (hmac_Sum L h (snd (dk key salt)) (sub page1 16 (d + 16) @ LE32 (unat (0 :: int64) + 1))
            = sub page1 (d + 16) (d + 16 + m))"
    using k by (simp add: ValidateKey_def Let_def pS rr hh IVSize_def SaltSize_def s1 s2 one)
  moreover have "salt_offset 0 = 16" by (simp add: salt_offset_def)
  ultimately show ?thesis
    by (simp only: hmac_input_def stored_tag_def d_def [symmetric] m_def [symmetric])
qed

text \<open>
  C3. \<open>ValidateKey\<close> returns false whenever the key is not \<open>KeySize\<close> (32) bytes long.
  Otherwise, on a first page that holds the layout, it takes the MAC key from the key
  derivation, computes the HMAC over \<open>page1[SaltSize .. pageSize - reserve + IVSize]\<close>
  followed by the four-byte little-endian encoding of 1, and returns whether that HMAC is
  the stored tag
  \<open>page1[pageSize - reserve + IVSize .. pageSize - reserve + IVSize + hmacSize]\<close>.
\<close>

theorem ValidateKey_spec:
  "(len key \<noteq> KeySize \<longrightarrow>
      ValidateKey L page1 key salt hashFunc hmacSize reserve pageSize dk = Inr False)
   \<and> (len key = KeySize \<and> 0 \<le> hmacSize \<and> IVSize + hmacSize \<le> reserve
        \<and> reserve \<le> pageSize \<and> pageSize \<le> len page1 \<longrightarrow>
      ValidateKey L page1 key salt (Some h) hmacSize reserve pageSize dk =
        Inr (hmac_Sum L h (snd (dk key salt))
               (sub page1 (nat SaltSize) (nat (pageSize - reserve + IVSize)) @ LE32 1)
             = sub page1 (nat (pageSize - reserve + IVSize))
                 (nat (pageSize - reserve + IVSize + hmacSize))))"
proof (intro conjI impI)
  assume "len key \<noteq> KeySize"
  then show "ValidateKey L page1 key salt hashFunc hmacSize reserve pageSize dk = Inr False"
    by (simp add: ValidateKey_def)
next
  assume a: "len key = KeySize \<and> 0 \<le> hmacSize \<and> IVSize + hmacSize \<le> reserve
        \<and> reserve \<le> pageSize \<and> pageSize \<le> len page1"
  then have "ValidateKey L page1 key salt (Some h) hmacSize reserve pageSize dk =
     Inr (hmac_Sum L h (snd (dk key salt)) (hmac_input page1 0 reserve pageSize)
            = stored_tag page1 hmacSize reserve pageSize)"
    by (intro ValidateKey_outcome) simp_all
  moreover have "nat (pageSize - reserve + IVSize) = nat (pageSize - reserve) + 16"
    "nat (pageSize - reserve + IVSize + hmacSize) = nat (pageSize - reserve) + 16 + nat hmacSize"
    using a by (simp_all add: IVSize_def nat_add_distrib)
  ultimately show "ValidateKey L page1 key salt (Some h) hmacSize reserve pageSize dk =
        Inr (hmac_Sum L h (snd (dk key salt))
               (sub page1 (nat SaltSize) (nat (pageSize - reserve + IVSize)) @ LE32 1)
             = sub page1 (nat (pageSize - reserve + IVSize))
                 (nat (pageSize - reserve + IVSize + hmacSize)))"
    by (simp add: hmac_input_def stored_tag_def salt_offset_def SaltSize_def)
qed

theorem ValidateKey_spec_witness:
  "ValidateKey toy_crypto demo_first (replicate 32 0x11) (replicate 16 0x07) (Some sha1_New)
      20 48 80 demo_deriveKeys = Inr True
   \<and> ValidateKey toy_crypto demo_first (replicate 31 0x11) (replicate 16 0x07) (Some sha1_New)
      20 48 80 demo_deriveKeys = Inr False"
  using ValidateKey_spec [of "replicate 32 0x11" toy_crypto demo_first "replicate 16 0x07"
      "Some sha1_New" 20 48 80 demo_deriveKeys sha1_New]
    ValidateKey_spec [of "replicate 31 0x11" toy_crypto demo_first "replicate 16 0x07"
      "Some sha1_New" 20 48 80 demo_deriveKeys sha1_New]
  by (simp add: demo_simps)

text \<open>
  C4. On a page buffer that holds the layout, \<open>DecryptPage\<close> fails with
  \<open>ErrDecryptHashVerificationFailed\<close> if and only if the HMAC recomputed over
  \<open>page[off .. pageSize - reserve + IVSize]\<close> (\<open>off\<close> is \<open>SaltSize\<close> for page 0 and 0
  otherwise) followed by the little-endian page number plus one differs from the stored
  tag; when the tags match, the key is one AES accepts and the cipher region is a whole
  number of blocks, it returns the CBC decryption of the cipher region followed by the
  reserve as it stands.
\<close>

theorem DecryptPage_hmac_check:
  assumes "0 \<le> hmacSize" "IVSize + hmacSize \<le> reserve" "reserve \<le> pageSize"
    and "pageSize \<le> len pageBuf"
  shows "(DecryptPage L pageBuf encKey macKey pageNum (Some h) hmacSize reserve pageSize
            = Inl ErrDecryptHashVerificationFailed)
         = (hmac_Sum L h macKey (hmac_input pageBuf pageNum reserve pageSize)
              \<noteq> stored_tag pageBuf hmacSize reserve pageSize)
       \<and> (hmac_Sum L h macKey (hmac_input pageBuf pageNum reserve pageSize)
              = stored_tag pageBuf hmacSize reserve pageSize
          \<and> aes_NewCipher L encKey
          \<and> salt_offset pageNum \<le> nat (pageSize - reserve)
          \<and> (nat (pageSize - reserve) - salt_offset pageNum) mod 16 = 0 \<longrightarrow>
          DecryptPage L pageBuf encKey macKey pageNum (Some h) hmacSize reserve pageSize
            = Inr (cbc_Decrypt L encKey
                     (sub pageBuf (nat (pageSize - reserve)) (nat (pageSize - reserve) + 16))
                     (sub pageBuf (salt_offset pageNum) (nat (pageSize - reserve)))
                   @ sub pageBuf (nat (pageSize - reserve)) (nat pageSize)))"
  by (simp add: DecryptPage_outcome [OF assms])

theorem DecryptPage_hmac_check_witness:
  "DecryptPage toy_crypto demo_sealed demo_encKey demo_macKey 1 (Some sha1_New) 20 48 64
     = Inr (replicate 16 0x41 @ replicate 16 0x11 @ replicate 20 0xB2 @ replicate 12 0)
   \<and> DecryptPage toy_crypto demo_tampered demo_encKey demo_macKey 1 (Some sha1_New) 20 48 64
     = Inl ErrDecryptHashVerificationFailed"
  using DecryptPage_hmac_check [of 20 48 64 demo_sealed toy_crypto demo_encKey demo_macKey 1 sha1_New]
    DecryptPage_hmac_check [of 20 48 64 demo_tampered toy_crypto demo_encKey demo_macKey 1 sha1_New]
  by (simp add: demo_simps)

text \<open>
  C10. For a 32-byte key and a first page that holds the layout, \<open>ValidateKey\<close> returns
  true exactly when \<open>DecryptPage\<close> of that page at page number 0, under the keys the same
  derivation gives, does not fail the HMAC check.
\<close>

theorem ValidateKey_agrees_with_DecryptPage:
  assumes "len key = KeySize"
    and "0 \<le> hmacSize" "IVSize + hmacSize \<le> reserve" "reserve \<le> pageSize"
    and "pageSize \<le> len page1"
    and "dk key salt = (encKey, macKey)"
  shows "ValidateKey L page1 key salt (Some h) hmacSize reserve pageSize dk
           = Inr (DecryptPage L page1 encKey macKey 0 (Some h) hmacSize reserve pageSize
                    \<noteq> Inl ErrDecryptHashVerificationFailed)"
  using assms
  by (simp add: ValidateKey_outcome DecryptPage_outcome)

theorem ValidateKey_agrees_with_DecryptPage_witness:
  "ValidateKey toy_crypto demo_first (replicate 32 0x11) (replicate 16 0x07) (Some sha1_New)
      20 48 80 demo_deriveKeys
     = Inr (DecryptPage toy_crypto demo_first demo_encKey demo_macKey 0 (Some sha1_New) 20 48 80
              \<noteq> Inl ErrDecryptHashVerificationFailed)"
  using ValidateKey_agrees_with_DecryptPage [of "replicate 32 0x11" 20 48 80 demo_first
      demo_deriveKeys "replicate 16 0x07" demo_encKey demo_macKey toy_crypto sha1_New]
  by (simp add: demo_simps)


section \<open>Key derivation\<close>

text \<open>
  C2. For the Windows v4 encryptor, \<open>deriveKeys\<close> returns the pair of
  \<open>enc_key = PBKDF2(HMAC-SHA-512, key, salt, V4IterCount, 32)\<close> and
  \<open>mac_key = PBKDF2(HMAC-SHA-512, enc_key, mac_salt, 2, 32)\<close>, where \<open>mac_salt\<close> is
  \<open>salt\<close> with every byte XORed with \<open>0x3a\<close>; both keys are 32 bytes long, as PBKDF2
  returns the length it is asked for.
\<close>

theorem deriveKeys_spec:
  assumes "pbkdf2_contract L"
  shows "deriveKeys L (NewV4Encryptor PageSize V4IterCount) key salt =
           (pbkdf2_Key L key salt V4IterCount 32 (Some sha512_New),
            pbkdf2_Key L (pbkdf2_Key L key salt V4IterCount 32 (Some sha512_New))
              (map (\<lambda>b. b XOR 0x3a) salt) 2 32 (Some sha512_New))
         \<and> length (fst (deriveKeys L (NewV4Encryptor PageSize V4IterCount) key salt)) = 32
         \<and> length (snd (deriveKeys L (NewV4Encryptor PageSize V4IterCount) key salt)) = 32"
  using assms
  by (simp add: deriveKeys_def NewV4Encryptor_def Let_def KeySize_def XorBytes_map
        pbkdf2_contract_def)

theorem deriveKeys_spec_witness:
  "deriveKeys toy_crypto (NewV4Encryptor 4096 256000) (replicate 32 0x11) (replicate 16 0x07)
     = (replicate 32 0x90, replicate 32 0xD2)"
  using deriveKeys_spec [OF toy_pbkdf2_contract, of 4096 256000 "replicate 32 0x11" "replicate 16 0x07"]
  by (simp add: toy_crypto_def sum_list_replicate)

section \<open>The factory\<close>

text \<open>
  C9. For every platform and version, \<open>NewEncryptor\<close> returns the Windows v4 encryptor
  exactly when the platform is \<open>windows\<close> and the version is 4, and fails with
  \<open>PlatformUnsupported\<close> for every other pair.
\<close>

theorem NewEncryptor_spec:
  "(NewEncryptor PageSize V4IterCount platform version = Inr (NewV4Encryptor PageSize V4IterCount))
     = (platform = ''windows'' \<and> version = 4)
   \<and> (NewEncryptor PageSize V4IterCount platform version = Inl (PlatformUnsupported platform version))
     = (\<not> (platform = ''windows'' \<and> version = 4))"
  by (simp add: NewEncryptor_def)

section \<open>The input shapes of EncryptPage\<close>

lemma EncryptPage_rejects_size:
  assumes "\<not> shape_accepted plainPage pageNum pageSize" and "SaltSize \<le> pageSize"
  shows "EncryptPage L plainPage encKey macKey pageNum (Some h) hmacSize reserve pageSize
           = Inl (InvalidPlainPageSize (len plainPage) pageNum)"
proof -
  have "int_sub pageSize SaltSize = pageSize - SaltSize"
    using assms(2) by (simp add: int_sub_exact SaltSize_def)
  with assms(1) show ?thesis by (simp add: EncryptPage_def shape_accepted_def)
qed

lemma EncryptPage_payload:
  assumes "shape_accepted plainPage pageNum pageSize" "SaltSize \<le> pageSize"
  shows "(if pageNum = 0 then
               (if len plainPage = pageSize then
                  andThen (slice plainPage 0 SaltSize) (\<lambda>salt.
                  andThen (slice plainPage SaltSize (len plainPage)) (\<lambda>pagePayload.
                  Inr (pagePayload, Some salt)))
                else if len plainPage = int_sub pageSize SaltSize then Inr (plainPage, None)
                else Inl (InvalidPlainPageSize (len plainPage) pageNum))
             else
               (if len plainPage \<noteq> pageSize
                then Inl (InvalidPlainPageSize (len plainPage) pageNum)
                else Inr (plainPage, None)))
         = Inr (page_payload plainPage pageNum pageSize,
                if pageNum = 0 \<and> len plainPage = pageSize then Some (take 16 plainPage) else None)"
proof -
  have "int_sub pageSize SaltSize = pageSize - 16"
    using assms(2) by (simp add: int_sub_exact SaltSize_def)
  with assms show ?thesis
    by (auto simp: shape_accepted_def page_payload_def slice_def SaltSize_def len_def)
qed

lemma EncryptPage_rejects_shape:
  assumes acc: "shape_accepted plainPage pageNum pageSize" and ps: "SaltSize \<le> pageSize"
    and hb: "IVSize + hmacSize \<le> MaxInt"
    and bad: "len (page_payload plainPage pageNum pageSize) - reserve < 0
              \<or> (len (page_payload plainPage pageNum pageSize) - reserve) mod AESBlockSize \<noteq> 0
              \<or> reserve < IVSize + hmacSize"
  shows "\<exists>e. EncryptPage L plainPage encKey macKey pageNum (Some h) hmacSize reserve pageSize
               = Inl e \<and> InvalidPageShape e"
proof -
  define payload where "payload = page_payload plainPage pageNum pageSize"
  define dataLen where "dataLen = int_sub (len payload) reserve"
  have bad': "len payload < reserve \<or> (len payload - reserve) mod 16 \<noteq> 0
                \<or> reserve < IVSize + hmacSize"
    using bad by (auto simp: payload_def AESBlockSize_def)
  have sum: "int_add IVSize hmacSize = IVSize + hmacSize"
    using hb by (simp add: int_add_exact IVSize_def)
  have "EncryptPage L plainPage encKey macKey pageNum (Some h) hmacSize reserve pageSize =
     (if len payload < reserve
      then Inl (PlainPageSmallerThanReserve (len payload) reserve pageNum)
      else if dataLen < 0 \<or> dataLen smod 16 \<noteq> 0
      then Inl (InvalidPlainDataLength dataLen pageNum)
      else Inl (ReserveTooSmall reserve IVSize hmacSize))"
  proof (cases "len payload < reserve")
    case True
    then show ?thesis
      by (simp add: EncryptPage_def EncryptPage_payload [OF acc ps] Let_def
            payload_def [symmetric])
  next
    case False
    show ?thesis
    proof (cases "dataLen < 0 \<or> dataLen smod 16 \<noteq> 0")
      case True
      with False show ?thesis
        by (simp add: EncryptPage_def EncryptPage_payload [OF acc ps] Let_def
              payload_def [symmetric] dataLen_def [symmetric] AESBlockSize_def)
    next
      case aligned: False
      have "dataLen = len payload - reserve \<or> dataLen < 0"
        unfolding dataLen_def using False by (intro int_sub_overflow) (simp_all add: len_def)
      with aligned have dl: "dataLen = len payload - reserve" by simp
      with aligned False have "(len payload - reserve) mod 16 = 0"
        by (simp add: smod_nonneg)
      with False bad' have "reserve < int_add IVSize hmacSize" by (simp add: sum)
      with False aligned show ?thesis
        by (simp add: EncryptPage_def EncryptPage_payload [OF acc ps] Let_def
              payload_def [symmetric] dataLen_def [symmetric] AESBlockSize_def)
    qed
  qed
  then show ?thesis by simp
qed

text \<open>
  C6. With a hash function given, a page size of at least \<open>SaltSize\<close> and an HMAC
  size for which \<open>IVSize + hmacSize\<close> does not exceed \<open>MaxInt\<close> (so that Go's sum does
  not wrap around), \<open>EncryptPage\<close> accepts a plain page of \<open>pageSize\<close> bytes for any page
  number and one of \<open>pageSize - SaltSize\<close> bytes for page 0 only, and fails with an
  invalid-size error on every other length. On an accepted length it fails with a
  page-shape error whenever \<open>data_len = len(payload) - reserve\<close> is negative or not a
  multiple of the block size, or the reserve is smaller than \<open>IVSize + hmacSize\<close>;
  otherwise, with a key AES accepts, it returns a page of \<open>pageSize\<close> bytes, whose
  leading \<open>SaltSize\<close> bytes are zero when the short form was given.
\<close>

theorem EncryptPage_input_shape:
  assumes "SaltSize \<le> pageSize" and "IVSize + hmacSize \<le> MaxInt"
  shows "(\<not> shape_accepted plainPage pageNum pageSize \<longrightarrow>
            EncryptPage L plainPage encKey macKey pageNum (Some h) hmacSize reserve pageSize
              = Inl (InvalidPlainPageSize (len plainPage) pageNum))
       \<and> (shape_accepted plainPage pageNum pageSize
            \<and> (len (page_payload plainPage pageNum pageSize) - reserve < 0
                \<or> (len (page_payload plainPage pageNum pageSize) - reserve) mod AESBlockSize \<noteq> 0
                \<or> reserve < IVSize + hmacSize) \<longrightarrow>
            (\<exists>e. EncryptPage L plainPage encKey macKey pageNum (Some h) hmacSize reserve pageSize
                   = Inl e \<and> InvalidPageShape e))
       \<and> (shape_accepted plainPage pageNum pageSize
            \<and> 0 \<le> len (page_payload plainPage pageNum pageSize) - reserve
            \<and> (len (page_payload plainPage pageNum pageSize) - reserve) mod AESBlockSize = 0
            \<and> IVSize + hmacSize \<le> reserve \<and> 0 \<le> hmacSize
            \<and> aes_NewCipher L encKey \<and> cbc_contract L
            \<and> (\<forall>msg. hmacSize \<le> len (hmac_Sum L h macKey msg)) \<longrightarrow>
            (\<exists>out. EncryptPage L plainPage encKey macKey pageNum (Some h) hmacSize reserve pageSize
                     = Inr out
                   \<and> len out = pageSize
                   \<and> (pageNum = 0 \<and> len plainPage = pageSize - SaltSize \<longrightarrow>
                        sub out 0 (nat SaltSize) = replicate (nat SaltSize) 0)))"
proof (intro conjI impI)
  assume "\<not> shape_accepted plainPage pageNum pageSize"
  then show "EncryptPage L plainPage encKey macKey pageNum (Some h) hmacSize reserve pageSize
              = Inl (InvalidPlainPageSize (len plainPage) pageNum)"
    using assms(1) by (rule EncryptPage_rejects_size)
next
  assume "shape_accepted plainPage pageNum pageSize
            \<and> (len (page_payload plainPage pageNum pageSize) - reserve < 0
                \<or> (len (page_payload plainPage pageNum pageSize) - reserve) mod AESBlockSize \<noteq> 0
                \<or> reserve < IVSize + hmacSize)"
  then show "\<exists>e. EncryptPage L plainPage encKey macKey pageNum (Some h) hmacSize reserve pageSize
                   = Inl e \<and> InvalidPageShape e"
    using assms by (intro EncryptPage_rejects_shape) simp_all
next
  assume a: "shape_accepted plainPage pageNum pageSize
            \<and> 0 \<le> len (page_payload plainPage pageNum pageSize) - reserve
            \<and> (len (page_payload plainPage pageNum pageSize) - reserve) mod AESBlockSize = 0
            \<and> IVSize + hmacSize \<le> reserve \<and> 0 \<le> hmacSize
            \<and> aes_NewCipher L encKey \<and> cbc_contract L
            \<and> (\<forall>msg. hmacSize \<le> len (hmac_Sum L h macKey msg))"
  define payload where "payload = page_payload plainPage pageNum pageSize"
  define pre where "pre = page_prefix plainPage pageNum pageSize"
  define out where "out = sealed_page L pre payload encKey macKey pageNum h (nat hmacSize) (nat reserve)"
  have E: "EncryptPage L plainPage encKey macKey pageNum (Some h) hmacSize reserve pageSize
             = Inr out"
    unfolding out_def pre_def payload_def
    using a assms
    by (intro EncryptPage_sealed) (auto simp: shape_accepted_def AESBlockSize_def)
  have lens: "length pre + length payload = nat pageSize"
    using a assms
    by (auto simp: pre_def payload_def page_prefix_def page_payload_def shape_accepted_def
          len_def SaltSize_def)
  from a have a1: "0 \<le> int (length payload) - reserve"
    "(int (length payload) - reserve) mod 16 = 0" "16 + hmacSize \<le> reserve" "0 \<le> hmacSize"
    by (simp_all add: payload_def len_def IVSize_def AESBlockSize_def)
  have ar1: "16 + nat hmacSize \<le> nat reserve" using a1 by linarith
  have ar2: "nat reserve \<le> length payload" using a1 by linarith
  have "int (length payload - nat reserve) = int (length payload) - reserve"
    using a1 by linarith
  then have "int ((length payload - nat reserve) mod 16) = 0"
    using a1(2) by (simp add: zmod_int)
  then have ar3: "(length payload - nat reserve) mod 16 = 0" by simp
  note ar = ar1 ar2 ar3
  have "length out = length pre + length payload"
    unfolding out_def using a ar
    by (intro length_sealed_page) (auto simp: len_def nat_le_iff)
  then have L: "len out = pageSize" using lens assms by (simp add: len_def SaltSize_def)
  have Z: "sub out 0 (nat SaltSize) = replicate (nat SaltSize) 0"
    if "pageNum = 0 \<and> len plainPage = pageSize - SaltSize"
    using that
    by (simp add: out_def sealed_page_def Let_def pre_def page_prefix_def sub_def SaltSize_def)
  show "\<exists>out. EncryptPage L plainPage encKey macKey pageNum (Some h) hmacSize reserve pageSize
                     = Inr out
                   \<and> len out = pageSize
                   \<and> (pageNum = 0 \<and> len plainPage = pageSize - SaltSize \<longrightarrow>
                        sub out 0 (nat SaltSize) = replicate (nat SaltSize) 0)"
    using E L Z by blast
qed


theorem EncryptPage_input_shape_witness:
  "EncryptPage toy_crypto (replicate 10 1) demo_encKey demo_macKey 1 (Some sha1_New) 20 48 64
     = Inl (InvalidPlainPageSize 10 1)
   \<and> (\<exists>e. EncryptPage toy_crypto demo_page demo_encKey demo_macKey 1 (Some sha1_New) 20 40 64
            = Inl e \<and> InvalidPageShape e)
   \<and> (\<exists>out. EncryptPage toy_crypto demo_page demo_encKey demo_macKey 0 (Some sha1_New) 20 48 80
            = Inr out \<and> len out = 80 \<and> sub out 0 16 = replicate 16 0)"
  using
    EncryptPage_input_shape [where pageSize = 64 and plainPage = "replicate 10 1" and pageNum = 1
      and L = toy_crypto and encKey = demo_encKey and macKey = demo_macKey and h = sha1_New
      and hmacSize = 20 and reserve = 48]
    EncryptPage_input_shape [where pageSize = 64 and plainPage = demo_page and pageNum = 1
      and L = toy_crypto and encKey = demo_encKey and macKey = demo_macKey and h = sha1_New
      and hmacSize = 20 and reserve = 40]
    EncryptPage_input_shape [where pageSize = 80 and plainPage = demo_page and pageNum = 0
      and L = toy_crypto and encKey = demo_encKey and macKey = demo_macKey and h = sha1_New
      and hmacSize = 20 and reserve = 48]
    toy_crypto_contracts(2)
  by (simp add: shape_accepted_def page_payload_def len_def demo_page_def demo_encKey_def
        SaltSize_def IVSize_def AESBlockSize_def MaxInt_def toy_crypto_def hash_Size_def)



text \<open>
  The bound on \<open>hmacSize\<close> is needed. At \<open>hmacSize = MaxInt\<close> the sum
  \<open>IVSize + hmacSize\<close> wraps around to \<open>MinInt + 15\<close>, the reserve of 48 bytes is not
  smaller than it, and \<open>EncryptPage\<close> goes on to the length check of the computed HMAC,
  which fails with another error than those of the page shape. A difference
  \<open>len(pagePayload) - reserve\<close> that wraps around is negative and is rejected as a data
  length.
\<close>

lemma EncryptPage_reserve_check_wraps:
  "int_add IVSize MaxInt = MinInt + 15
   \<and> EncryptPage toy_crypto demo_page demo_encKey demo_macKey 1 (Some sha1_New) MaxInt 48 64
       = Inl (HMACTooShort 20 MaxInt)
   \<and> \<not> InvalidPageShape (HMACTooShort 20 MaxInt)"
proof (intro conjI)
  show "int_add IVSize MaxInt = MinInt + 15"
    by (simp add: int_add_def is_int_def wrap_int_def IVSize_def MaxInt_def MinInt_def)
  have a: "int_add 16 MaxInt = MinInt + 15"
    by (simp add: int_add_def is_int_def wrap_int_def IVSize_def MaxInt_def MinInt_def)
  have b: "int_sub 64 48 = 16" by (simp add: int_sub_exact)
  have m: "\<not> (48 :: int) < MinInt + 15" "(20 :: int) < MaxInt"
    by (simp_all add: MinInt_def MaxInt_def)
  show "EncryptPage toy_crypto demo_page demo_encKey demo_macKey 1 (Some sha1_New) MaxInt 48 64
       = Inl (HMACTooShort 20 MaxInt)"
    by (simp add: EncryptPage_def Let_def a b m len_def demo_page_def demo_encKey_def
          demo_macKey_def toy_crypto_def hash_Size_def SaltSize_def IVSize_def AESBlockSize_def
          slice_def make_bytes_def copy_def copy_slice_def CryptBlocks_def smod_nonneg)
  show "\<not> InvalidPageShape (HMACTooShort 20 MaxInt)" by simp
qed

lemma EncryptPage_data_length_wraps:
  "EncryptPage toy_crypto demo_page demo_encKey demo_macKey 1 (Some sha1_New) 20 MinInt 64
     = Inl (InvalidPlainDataLength (MinInt + 64) 1)"
proof -
  have a: "int_sub 64 MinInt = MinInt + 64"
    by (simp add: int_sub_def is_int_def wrap_int_def MaxInt_def MinInt_def)
  have m: "\<not> (64 :: int) < MinInt" "MinInt + 64 < 0"
    by (simp_all add: MinInt_def)
  show ?thesis
    by (simp add: EncryptPage_def Let_def a m len_def demo_page_def)
qed

section \<open>The image opener\<close>

lemma go_page_count:
  assumes "0 \<le> n" "0 < p"
  shows "(if n smod p > 0 then n sdiv p + 1 else n sdiv p) = \<lceil>real_of_int n / real_of_int p\<rceil>"
proof -
  have "n smod p = n mod p" "n sdiv p = n div p"
    using assms by (simp_all add: smod_mod_positive signed_divide_int_def sgn_if div_abs_eq)
  moreover have "\<lceil>real_of_int n / real_of_int p\<rceil> = - (- n div p)"
    by (rule ceiling_divide_eq_div)
  moreover have "(0 < n mod p) = (n mod p \<noteq> 0)"
    using pos_mod_sign [of p n] assms by linarith
  ultimately show ?thesis
    using assms by (simp add: zdiv_zminus1_eq_if)
qed

lemma io_ReadFull_whole:
  assumes "first_bytes_readable fp (length buf)" "offset fp = 0"
  shows "io_ReadFull fp buf
           = (length buf, None, take (length buf) (file_data fp), fp\<lparr>offset := length buf\<rparr>)"
  using assms
  by (auto simp: io_ReadFull_def first_bytes_readable_def Let_def min_def split: option.splits)

text \<open>
  C8. For a file that opens, whose \<open>Stat\<close> succeeds and whose first \<open>pageSize\<close> bytes
  are readable (with \<open>pageSize\<close> at least \<open>SaltSize\<close>), \<open>OpenDBFile\<close> fails with
  \<open>ErrAlreadyDecrypted\<close> if and only if the first 15 bytes of the file are the first 15
  bytes of the header, the trailing NUL left out of the comparison; otherwise it returns
  the record of the path, the first \<open>SaltSize\<close> bytes as the salt, the first \<open>pageSize\<close>
  bytes as the first page, and \<open>ceil(file_size / pageSize)\<close> as the page count.
\<close>

theorem OpenDBFile_spec:
  assumes "file_at R dbPath = Some fp" "\<not> stat_fails fp"
    and "first_bytes_readable fp (nat pageSize)"
    and "SaltSize \<le> pageSize"
  shows "(OpenDBFile R dbPath pageSize = Inl ErrAlreadyDecrypted)
           = (sub (file_data fp) 0 15 = sub SQLiteHeader 0 15)
       \<and> (sub (file_data fp) 0 15 \<noteq> sub SQLiteHeader 0 15 \<longrightarrow>
            OpenDBFile R dbPath pageSize =
              Inr \<lparr> Path = dbPath,
                    Salt = sub (file_data fp) 0 (nat SaltSize),
                    TotalPages = \<lceil>real_of_int (len (file_data fp)) / real_of_int pageSize\<rceil>,
                    FirstPage = sub (file_data fp) 0 (nat pageSize) \<rparr>)"
proof -
  define q where "q = nat pageSize"
  define page where "page = take q (file_data fp)"
  have pS: "pageSize = int q" and q16: "16 \<le> q"
    using assms(4) by (simp_all add: q_def SaltSize_def)
  have lq: "q \<le> length (file_data fp)"
    using assms(3) by (simp add: first_bytes_readable_def q_def)
  have lpage: "length page = q" using lq by (simp add: page_def)
  have op: "os_Open R dbPath = Some (fp\<lparr>offset := 0\<rparr>)"
    using assms(1) by (simp add: os_Open_def)
  have rd: "io_ReadFull (fp\<lparr>offset := 0\<rparr>) (replicate q 0)
              = (q, None, page, fp\<lparr>offset := q\<rparr>)"
    using io_ReadFull_whole [of "fp\<lparr>offset := 0\<rparr>" "replicate q 0"] assms(3)
    by (simp add: first_bytes_readable_def q_def page_def)
  have tp: "(if len (file_data fp) smod int q > 0 then len (file_data fp) sdiv int q + 1
             else len (file_data fp) sdiv int q)
              = \<lceil>real_of_int (len (file_data fp)) / real_of_int (int q)\<rceil>"
    using q16 by (intro go_page_count) (simp_all add: len_def)
  have hl: "len SQLiteHeader - 1 = 15" by (simp add: SQLiteHeader_def len_def)
  have s1: "slice page 0 15 = Inr (sub (file_data fp) 0 15)"
    using q16 lpage by (simp add: slice_def len_def sub_def page_def min_def)
  have s2: "slice SQLiteHeader 0 15 = Inr (sub SQLiteHeader 0 15)"
    by (simp add: slice_def len_def sub_def SQLiteHeader_def)
  have s3: "slice page 0 16 = Inr (sub (file_data fp) 0 16)"
    using q16 lpage by (simp add: slice_def len_def sub_def page_def min_def)
  have "OpenDBFile R dbPath pageSize =
          (if sub (file_data fp) 0 15 = sub SQLiteHeader 0 15 then Inl ErrAlreadyDecrypted
           else Inr \<lparr> Path = dbPath, Salt = sub (file_data fp) 0 16,
                      TotalPages = \<lceil>real_of_int (len (file_data fp)) / real_of_int (int q)\<rceil>,
                      FirstPage = page \<rparr>)"
    using assms(2) q16
    by (simp add: OpenDBFile_def op pS make_bytes_def rd hl s1 s2 s3 tp SaltSize_def Let_def
          del: of_int_of_nat_eq)
  then show ?thesis
    by (simp add: pS SaltSize_def page_def sub_def)
qed

theorem OpenDBFile_spec_witness:
  "OpenDBFile demo_runtime ''image.db'' 112
     = Inr \<lparr> Path = ''image.db'', Salt = 0x07 # replicate 15 0x07, TotalPages = 2,
             FirstPage = 0x07 # replicate 111 0x07 \<rparr>
   \<and> OpenDBFile demo_runtime ''plain.db'' 112 = Inl ErrAlreadyDecrypted"
  using
    OpenDBFile_spec [where R = demo_runtime and dbPath = "''image.db''" and pageSize = 112
      and fp = "\<lparr> file_data = demo_image, stat_fails = False, read_fault = None, offset = 0 \<rparr>"]
    OpenDBFile_spec [where R = demo_runtime and dbPath = "''plain.db''" and pageSize = 112
      and fp = "\<lparr> file_data = demo_plain, stat_fails = False, read_fault = None, offset = 0 \<rparr>"]
  by (simp add: demo_runtime_def first_bytes_readable_def demo_lengths SaltSize_def sub_def
        demo_image_def demo_plain_def SQLiteHeader_def len_def)

section \<open>Encrypt\<close>

lemma Write_appends:
  "Write w p = (w', True) \<Longrightarrow> written w' = written w @ p"
  by (auto simp: Write_def split: option.splits if_splits)

lemma zero_fill_short:
  assumes "length buf = q" "n \<le> q"
  shows "zero_fill buf (int n) (int q) = Inr (take n buf @ replicate (q - n) 0)"
  using assms by (cases "n = q") (simp_all add: zero_fill_def len_def nat_diff_distrib')

lemma io_ReadFull_page:
  assumes "read_fault f = None" "offset f < length (file_data f)" "length buf = q" "0 < q"
  shows "io_ReadFull f buf =
           (min q (length (file_data f) - offset f),
            (if length (file_data f) - offset f < q then Some ErrUnexpectedEOF else None),
            take q (drop (offset f) (file_data f)) @ drop (min q (length (file_data f) - offset f)) buf,
            f\<lparr>offset := offset f + min q (length (file_data f) - offset f)\<rparr>)"
  using assms by (auto simp: io_ReadFull_def Let_def min_def)

text \<open>
  C5. In the loop of \<open>Encrypt\<close> (pages of index 1 and above), when the page read at the
  file's offset is all zero after the zero-fill of a short read, the iteration writes that
  page of zeros to the output as it is. The random source is left untouched (no IV is
  generated) and neither the library nor the keys take part in the result (no AES, no
  HMAC); the loop ends after a short read and goes on to the next page otherwise.
\<close>

theorem zero_page_pass_through:
  assumes live: "\<not> ctx_Done (st_page s)"
    and q: "v4_pageSize e = int q" "0 < q" "length (st_buf s) = q"
    and src: "read_fault (st_file s) = None"
              "offset (st_file s) < length (file_data (st_file s))"
    and zero: "next_page (st_file s) q = replicate q 0"
    and room: "Write (st_out s) (replicate q 0) = (w, True)"
  shows "written w = written (st_out s) @ replicate q 0
       \<and> encrypt_step L e ctx_Done plainDB encKey macKey s =
           (if length (file_data (st_file s)) - offset (st_file s) < q
            then Inl (None, w)
            else Inr (s\<lparr>st_file := (st_file s)\<lparr>offset := offset (st_file s) + q\<rparr>,
                        st_out := w, st_buf := replicate q 0,
                        st_page := st_page s + 1\<rparr>))"
proof -
  define f where "f = st_file s"
  define n where "n = min q (length (file_data f) - offset f)"
  define got where "got = take q (drop (offset f) (file_data f))"
  have n: "0 < n" "n \<le> q" "length got = n"
    using src q by (auto simp: n_def got_def f_def)
  have rd: "io_ReadFull f (st_buf s) =
              (n, (if length (file_data f) - offset f < q then Some ErrUnexpectedEOF else None),
               got @ drop n (st_buf s), f\<lparr>offset := offset f + n\<rparr>)"
    using io_ReadFull_page [of "st_file s" "st_buf s" q] src q
    by (simp add: n_def got_def f_def)
  have zf: "zero_fill (got @ drop n (st_buf s)) (int n) (int q) = Inr (replicate q 0)"
  proof -
    have "zero_fill (got @ drop n (st_buf s)) (int n) (int q)
            = Inr (take n (got @ drop n (st_buf s)) @ replicate (q - n) 0)"
      using n q by (intro zero_fill_short) simp_all
    moreover have "take n (got @ drop n (st_buf s)) @ replicate (q - n) 0 = next_page f q"
      using n by (auto simp: next_page_def got_def n_def min_def)
    ultimately show ?thesis using zero by (simp add: f_def)
  qed
  have az: "list_all (\<lambda>b. b = 0) (replicate q (0 :: byte))"
    by (simp add: list_all_iff)
  have step: "encrypt_step L e ctx_Done plainDB encKey macKey s =
           (if length (file_data f) - offset f < q
            then Inl (None, w)
            else Inr (s\<lparr>st_file := f\<lparr>offset := offset f + n\<rparr>,
                        st_out := w, st_buf := replicate q 0,
                        st_page := st_page s + 1\<rparr>))"
    using live n(1) room
    by (simp add: encrypt_step_def rd q(1) zf az f_def [symmetric])
  have "\<not> length (file_data f) - offset f < q \<Longrightarrow> n = q"
    by (simp add: n_def)
  with step show ?thesis
    using room by (auto simp: Write_appends f_def)
qed

theorem zero_page_pass_through_witness:
  "encrypt_step toy_crypto (NewV4Encryptor 112 2) (\<lambda>p. False) ''plain.db''
       demo_encKey demo_macKey demo_state =
     Inr (demo_state
            \<lparr> st_file := (st_file demo_state)\<lparr>offset := 224\<rparr>,
              st_out := \<lparr> written = replicate 112 0, room = None \<rparr>,
              st_buf := replicate 112 0,
              st_page := 2 \<rparr>)"
  using zero_page_pass_through [where s = demo_state and e = "NewV4Encryptor 112 2" and q = 112
      and ctx_Done = "\<lambda>p. False" and w = "\<lparr> written = replicate 112 0, room = None \<rparr>"
      and L = toy_crypto and plainDB = "''plain.db''" and encKey = demo_encKey
      and macKey = demo_macKey]
  by (simp add: demo_state_def NewV4Encryptor_def Let_def next_page_def demo_lengths Write_def
        demo_plain_def)

text \<open>
  C7. \<open>Encrypt\<close> fails with \<open>DecodeKeyFailed\<close> when the hexadecimal key does not decode,
  with the key-length error when the decoded key is not \<open>KeySize\<close> (32) bytes long, and,
  the key being accepted and the file opened, with the invalid-header error when the first
  16 bytes of the file are not the header \<open>SQLite format 3\<close> with its trailing NUL. In each
  case the output sink is returned as it was given: nothing is written.
\<close>

theorem Encrypt_preconditions:
  "(hex_DecodeString R hexKey = None \<longrightarrow>
      Encrypt L R e ctx_Done plainDB hexKey rng out = Some (Some DecodeKeyFailed, out))
   \<and> (\<forall>key. hex_DecodeString R hexKey = Some key \<and> len key \<noteq> KeySize \<longrightarrow>
      Encrypt L R e ctx_Done plainDB hexKey rng out
        = Some (Some (InvalidKeyLength KeySize (len key)), out))
   \<and> (\<forall>key fp. hex_DecodeString R hexKey = Some key \<and> len key = KeySize
        \<and> file_at R plainDB = Some fp \<and> \<not> stat_fails fp
        \<and> first_bytes_readable fp (length SQLiteHeader)
        \<and> sub (file_data fp) 0 (length SQLiteHeader) \<noteq> SQLiteHeader \<longrightarrow>
      Encrypt L R e ctx_Done plainDB hexKey rng out = Some (Some InvalidSqliteHeader, out))"
proof (intro conjI allI impI)
  assume "hex_DecodeString R hexKey = None"
  then show "Encrypt L R e ctx_Done plainDB hexKey rng out = Some (Some DecodeKeyFailed, out)"
    by (simp add: Encrypt_def encrypt_first_page_def)
next
  fix key
  assume "hex_DecodeString R hexKey = Some key \<and> len key \<noteq> KeySize"
  then show "Encrypt L R e ctx_Done plainDB hexKey rng out
        = Some (Some (InvalidKeyLength KeySize (len key)), out)"
    by (simp add: Encrypt_def encrypt_first_page_def)
next
  fix key fp
  assume a: "hex_DecodeString R hexKey = Some key \<and> len key = KeySize
        \<and> file_at R plainDB = Some fp \<and> \<not> stat_fails fp
        \<and> first_bytes_readable fp (length SQLiteHeader)
        \<and> sub (file_data fp) 0 (length SQLiteHeader) \<noteq> SQLiteHeader"
  have l: "length SQLiteHeader = 16" by (simp add: SQLiteHeader_def)
  have rd: "io_ReadFull (fp\<lparr>offset := 0\<rparr>) (replicate 16 0)
              = (16, None, take 16 (file_data fp), fp\<lparr>offset := 16\<rparr>)"
    using io_ReadFull_whole [of "fp\<lparr>offset := 0\<rparr>" "replicate 16 0"] a
    by (simp add: first_bytes_readable_def l)
  show "Encrypt L R e ctx_Done plainDB hexKey rng out = Some (Some InvalidSqliteHeader, out)"
    using a
    by (simp add: Encrypt_def encrypt_first_page_def os_Open_def make_bytes_def len_def l rd
          sub_def)
qed

theorem Encrypt_preconditions_witness:
  "Encrypt toy_crypto demo_runtime (NewV4Encryptor 112 2) (\<lambda>p. False) ''plain.db'' ''zz'' []
      \<lparr> written = [], room = None \<rparr>
     = Some (Some DecodeKeyFailed, \<lparr> written = [], room = None \<rparr>)
   \<and> Encrypt toy_crypto demo_runtime (NewV4Encryptor 112 2) (\<lambda>p. False) ''plain.db'' ''1111'' []
      \<lparr> written = [], room = None \<rparr>
     = Some (Some (InvalidKeyLength 32 2), \<lparr> written = [], room = None \<rparr>)
   \<and> Encrypt toy_crypto demo_runtime (NewV4Encryptor 112 2) (\<lambda>p. False) ''image.db''
      demo_hexKey [] \<lparr> written = [], room = None \<rparr>
     = Some (Some InvalidSqliteHeader, \<lparr> written = [], room = None \<rparr>)"
  using
    Encrypt_preconditions [where R = demo_runtime and hexKey = "''zz''" and L = toy_crypto
      and e = "NewV4Encryptor 112 2" and ctx_Done = "\<lambda>p. False" and plainDB = "''plain.db''"
      and rng = "[]" and out = "\<lparr> written = [], room = None \<rparr>"]
    Encrypt_preconditions [where R = demo_runtime and hexKey = "''1111''" and L = toy_crypto
      and e = "NewV4Encryptor 112 2" and ctx_Done = "\<lambda>p. False" and plainDB = "''plain.db''"
      and rng = "[]" and out = "\<lparr> written = [], room = None \<rparr>"]
    Encrypt_preconditions [where R = demo_runtime and hexKey = demo_hexKey and L = toy_crypto
      and e = "NewV4Encryptor 112 2" and ctx_Done = "\<lambda>p. False" and plainDB = "''image.db''"
      and rng = "[]" and out = "\<lparr> written = [], room = None \<rparr>"]
    demo_hexKey_decodes
  by (simp add: demo_runtime_def hex_digit_def len_def KeySize_def first_bytes_readable_def
        demo_lengths sub_def demo_image_def SQLiteHeader_def)


section \<open>The loop of Encrypt returns, and where the zero pages land\<close>

text \<open>
  Every iteration that goes on has read a whole page, so the loop ends with the file: the
  model of \<open>Encrypt\<close> always returns. A run that ends without error writes one page of
  output per page of input, and the page of index \<open>k\<close> of the output is all zero whenever
  the page of index \<open>k\<close> of the input is.
\<close>

lemma andThen_eq_Inr: "(andThen m f = Inr y) = (\<exists>x. m = Inr x \<and> f x = Inr y)"
  by (cases m) simp_all

lemma length_copy: "length (copy dst src) = length dst"
  by (simp add: copy_def)

lemma length_copy_slice: "copy_slice buf lo hi src = Inr r \<Longrightarrow> length r = length buf"
  by (auto simp: copy_slice_def length_copy len_def split: if_splits)

lemma length_zero_fill: "zero_fill buf lo hi = Inr r \<Longrightarrow> 0 \<le> lo \<Longrightarrow> length r = length buf"
  by (auto simp: zero_fill_def len_def split: if_splits)

lemma length_stamp_tail:
  "stamp_tail buf start rng failure = Inr (buf', rng') \<Longrightarrow> length buf' = length buf"
  by (auto simp: stamp_tail_def andThen_eq_Inr length_copy_slice split: option.splits)

lemma io_ReadFull_full:
  assumes rd: "io_ReadFull f buf = (n, None, buf', f')" and ne: "0 < length buf"
  shows "n = length buf \<and> length buf' = length buf \<and> f' = f\<lparr>offset := offset f + length buf\<rparr>
         \<and> offset f + length buf \<le> length (file_data f)"
proof -
  define rest where "rest = drop (offset f) (file_data f)"
  define readable where "readable =
    (case read_fault f of None \<Rightarrow> length rest | Some bad \<Rightarrow> min (length rest) (bad - offset f))"
  define got where "got = take (min (length buf) readable) rest"
  have unf: "io_ReadFull f buf =
     (if length got = length buf
      then (length got, None, got @ drop (length got) buf, f\<lparr>offset := offset f + length got\<rparr>)
      else if readable < length rest
      then (length got, Some ErrDevice, got @ drop (length got) buf,
            f\<lparr>offset := offset f + length got\<rparr>)
      else if length got = 0
      then (length got, Some EOF, got @ drop (length got) buf,
            f\<lparr>offset := offset f + length got\<rparr>)
      else (length got, Some ErrUnexpectedEOF, got @ drop (length got) buf,
            f\<lparr>offset := offset f + length got\<rparr>))"
    by (simp only: io_ReadFull_def Let_def rest_def readable_def got_def)
  from rd have full: "length got = length buf"
    unfolding unf by (simp split: if_splits)
  then have "length buf \<le> length rest" by (simp add: got_def)
  then have "length buf \<le> length (file_data f) - offset f" by (simp add: rest_def)
  with ne have "offset f + length buf \<le> length (file_data f)" by linarith
  with rd full show ?thesis unfolding unf by auto
qed

lemma encrypt_step_next:
  assumes "encrypt_step L e ctx_Done plainDB encKey macKey s = Inr s'" "0 < length (st_buf s)"
  shows "st_file s' = (st_file s)\<lparr>offset := offset (st_file s) + length (st_buf s)\<rparr>
       \<and> offset (st_file s) + length (st_buf s) \<le> length (file_data (st_file s))
       \<and> length (st_buf s') = length (st_buf s)
       \<and> st_page s' = st_page s + 1"
proof -
  obtain n readErr buf1 file1 where rd: "io_ReadFull (st_file s) (st_buf s) = (n, readErr, buf1, file1)"
    by (cases "io_ReadFull (st_file s) (st_buf s)") auto
  have none: "readErr = None"
    using assms rd
    apply (cases readErr)
     apply simp
    subgoal for err
      by (cases err)
         (auto simp: encrypt_step_def split: if_splits sum.splits prod.splits)
    done
  note full = io_ReadFull_full [OF rd [unfolded none] assms(2)]
  show ?thesis
    using assms full
    by (auto simp: encrypt_step_def rd none length_zero_fill length_stamp_tail
          split: if_splits sum.splits prod.splits)
qed

lemma encrypt_pages_returns:
  assumes "0 < length (st_buf s)"
  shows "\<exists>r. encrypt_pages L e ctx_Done plainDB encKey macKey s = Some r"
  using assms
proof (induction "length (file_data (st_file s)) - offset (st_file s)" arbitrary: s
        rule: less_induct)
  case less
  show ?case
  proof (cases "encrypt_step L e ctx_Done plainDB encKey macKey s")
    case (Inl r)
    then show ?thesis by (subst encrypt_pages.simps) simp
  next
    case (Inr s')
    note nx = encrypt_step_next [OF Inr less.prems]
    from nx have "offset (st_file s') = offset (st_file s) + length (st_buf s)"
      "file_data (st_file s') = file_data (st_file s)"
      "offset (st_file s) + length (st_buf s) \<le> length (file_data (st_file s))"
      by simp_all
    then have "length (file_data (st_file s')) - offset (st_file s')
            < length (file_data (st_file s)) - offset (st_file s)"
      using less.prems by (simp only:)
    moreover have "0 < length (st_buf s')" using nx less.prems by simp
    ultimately have "\<exists>r. encrypt_pages L e ctx_Done plainDB encKey macKey s' = Some r"
      by (rule less.hyps)
    with Inr show ?thesis by (subst encrypt_pages.simps) simp
  qed
qed

lemma encrypt_first_page_page_size:
  assumes "encrypt_first_page L R e plainDB hexKey rng = Inr x"
  shows "16 \<le> v4_pageSize e"
proof (rule ccontr)
  assume "\<not> 16 \<le> v4_pageSize e"
  then have mk: "make_bytes (v4_pageSize e - len SQLiteHeader) = Inl Panic"
    by (simp add: make_bytes_def len_def SQLiteHeader_def)
  have "isl (encrypt_first_page L R e plainDB hexKey rng)"
    unfolding encrypt_first_page_def mk
    by (simp add: make_bytes_def split: option.splits prod.splits)
  with assms show False by simp
qed

lemma Encrypt_returns:
  "\<exists>r. Encrypt L R e ctx_Done plainDB hexKey rng out = Some r"
proof (cases "encrypt_first_page L R e plainDB hexKey rng")
  case (Inl err)
  then show ?thesis by (simp add: Encrypt_def)
next
  case (Inr x)
  then have ps: "16 \<le> v4_pageSize e" by (rule encrypt_first_page_page_size)
  obtain encryptedPage plainFile rng' encKey macKey
    where x: "x = (encryptedPage, plainFile, rng', encKey, macKey)"
    by (cases x) auto
  obtain w ok where wr: "Write out encryptedPage = (w, ok)"
    by (cases "Write out encryptedPage") auto
  have mk: "make_bytes (v4_pageSize e) = Inr (replicate (nat (v4_pageSize e)) 0)"
    using ps by (simp add: make_bytes_def)
  have "\<exists>r. encrypt_pages L e ctx_Done plainDB encKey macKey
              \<lparr> st_file = plainFile, st_rand = rng', st_out = w,
                st_buf = replicate (nat (v4_pageSize e)) 0, st_page = 1 \<rparr> = Some r"
    using ps by (intro encrypt_pages_returns) simp
  then show ?thesis
    by (cases ok) (auto simp: Encrypt_def Inr x wr mk)
qed

lemma make_bytes_eq_Inr: "(make_bytes n = Inr r) = (0 \<le> n \<and> r = replicate (nat n) 0)"
  by (auto simp: make_bytes_def)

lemma EncryptPage_length:
  assumes "EncryptPage L plainPage encKey macKey pageNum hashFunc hmacSize reserve pageSize = Inr out"
  shows "len out = pageSize"
proof -
  from assms obtain h where h: "hashFunc = Some h"
    by (cases hashFunc) (simp_all add: EncryptPage_def)
  show ?thesis
    using assms unfolding EncryptPage_def h
    by (auto simp: andThen_eq_Inr Let_def make_bytes_eq_Inr len_def
          split: option.splits if_splits prod.splits dest!: length_copy_slice)
qed

lemma list_all_zero: "list_all (\<lambda>b. b = 0) xs = (xs = replicate (length xs) (0 :: byte))"
  by (induction xs) auto

lemma io_ReadFull_cases:
  assumes ne: "0 < length buf"
  obtains
    (full) "io_ReadFull f buf =
              (length buf, None, take (length buf) (drop (offset f) (file_data f)),
               f\<lparr>offset := offset f + length buf\<rparr>)"
           "offset f + length buf \<le> length (file_data f)"
  | (device) n buf' f' where "io_ReadFull f buf = (n, Some ErrDevice, buf', f')"
  | (eof) buf' f' where "io_ReadFull f buf = (0, Some EOF, buf', f')"
           "length (file_data f) \<le> offset f"
  | (short) n where "io_ReadFull f buf =
              (n, Some ErrUnexpectedEOF, drop (offset f) (file_data f) @ drop n buf,
               f\<lparr>offset := offset f + n\<rparr>)"
           "n = length (file_data f) - offset f" "0 < n" "n < length buf"
proof -
  define rest where "rest = drop (offset f) (file_data f)"
  define readable where "readable =
    (case read_fault f of None \<Rightarrow> length rest | Some bad \<Rightarrow> min (length rest) (bad - offset f))"
  define got where "got = take (min (length buf) readable) rest"
  have unf: "io_ReadFull f buf =
     (if length got = length buf
      then (length got, None, got @ drop (length got) buf, f\<lparr>offset := offset f + length got\<rparr>)
      else if readable < length rest
      then (length got, Some ErrDevice, got @ drop (length got) buf,
            f\<lparr>offset := offset f + length got\<rparr>)
      else if length got = 0
      then (length got, Some EOF, got @ drop (length got) buf,
            f\<lparr>offset := offset f + length got\<rparr>)
      else (length got, Some ErrUnexpectedEOF, got @ drop (length got) buf,
            f\<lparr>offset := offset f + length got\<rparr>))"
    by (simp only: io_ReadFull_def Let_def rest_def readable_def got_def)
  have rl: "readable \<le> length rest"
    by (simp add: readable_def split: option.splits)
  have lr: "length rest = length (file_data f) - offset f" by (simp add: rest_def)
  have lg: "length got = min (length buf) readable"
    using rl by (simp add: got_def)
  show thesis
  proof (cases "length got = length buf")
    case True
    with lg rl have le: "length buf \<le> length rest" and "length buf \<le> readable"
      by linarith+
    then have "got = take (length buf) rest" by (simp add: got_def min_def)
    moreover from le ne lr have "offset f + length buf \<le> length (file_data f)" by linarith
    ultimately show thesis using True unf by (intro full) (simp_all add: rest_def)
  next
    case short_read: False
    show thesis
    proof (cases "readable < length rest")
      case True
      with short_read unf show thesis by (intro device) simp
    next
      case False
      with rl have re: "readable = length rest" by simp
      with short_read lg have lt: "length rest < length buf" by linarith
      with re have g: "got = rest" by (simp add: got_def)
      show thesis
      proof (cases "length got = 0")
        case True
        with g lr have "length (file_data f) \<le> offset f" by simp
        with short_read False True unf show thesis by (intro eof) simp_all
      next
        case False
        with short_read \<open>\<not> readable < length rest\<close> unf g lt lr show thesis
          by (intro short [of "length rest"]) (simp_all add: rest_def)
      qed
    qed
  qed
qed

lemma encrypt_step_output:
  assumes q: "0 < q" "length (st_buf s) = q" "v4_pageSize e = int q"
  shows "encrypt_step L e ctx_Done plainDB encKey macKey s = Inr s' \<Longrightarrow>
           \<exists>P. written (st_out s') = written (st_out s) @ P \<and> length P = q
               \<and> (next_page (st_file s) q = replicate q 0 \<longrightarrow> P = replicate q 0)"
    and "encrypt_step L e ctx_Done plainDB encKey macKey s = Inl (None, w) \<Longrightarrow>
           (w = st_out s \<and> length (file_data (st_file s)) \<le> offset (st_file s))
           \<or> (\<exists>P. written w = written (st_out s) @ P \<and> length P = q
                 \<and> (next_page (st_file s) q = replicate q 0 \<longrightarrow> P = replicate q 0)
                 \<and> length (file_data (st_file s)) < offset (st_file s) + q)"
proof -
  define f where "f = st_file s"
  define page where "page = next_page f q"
  define rest where "rest (readErr :: io_error option) file1 =
       (if list_all (\<lambda>b. b = 0) page then
           (case Write (st_out s) page of (out1, ok) \<Rightarrow>
              if \<not> ok then Inl (Some WriteOutputFailed, out1)
              else if readErr = Some ErrUnexpectedEOF then Inl (None, out1)
              else Inr (s\<lparr>st_file := file1, st_out := out1, st_buf := page,
                          st_page := st_page s + 1\<rparr>))
         else
           (case stamp_tail page (v4_pageSize e - v4_reserve e) (st_rand s)
                   (GenerateIVFailed (st_page s)) of
              Inl err \<Rightarrow> Inl (Some err, st_out s)
            | Inr (buf3, rng1) \<Rightarrow>
                (case EncryptPage L buf3 encKey macKey (st_page s) (v4_hashFunc e)
                       (v4_hmacSize e) (v4_reserve e) (v4_pageSize e) of
                   Inl err \<Rightarrow> Inl (Some err, st_out s)
                 | Inr encryptedPage \<Rightarrow>
                     case Write (st_out s) encryptedPage of (out1, ok) \<Rightarrow>
                       if \<not> ok then Inl (Some WriteOutputFailed, out1)
                       else if readErr = Some ErrUnexpectedEOF then Inl (None, out1)
                       else Inr \<lparr> st_file = file1, st_rand = rng1, st_out = out1,
                                  st_buf = buf3, st_page = st_page s + 1 \<rparr>)))"
    for readErr file1
  have lpage: "length page = q"
    by (simp add: page_def next_page_def)
  have body: "\<exists>P. written w' = written (st_out s) @ P \<and> length P = q
               \<and> (page = replicate q 0 \<longrightarrow> P = replicate q 0)"
    if "rest readErr file1 = r"
      and "r = Inl (None, w') \<or> (\<exists>s'. r = Inr s' \<and> st_out s' = w')"
    for readErr file1 r w'
  proof (cases "list_all (\<lambda>b. b = 0) page")
    case True
    then have "page = replicate q 0" using lpage by (simp add: list_all_zero)
    with that True show ?thesis
      by (auto simp: rest_def Write_appends split: prod.splits if_splits)
  next
    case False
    then have "page \<noteq> replicate q 0" using lpage by (simp add: list_all_zero)
    with that False show ?thesis
      by (auto simp: rest_def Write_appends len_def q(3) split: prod.splits if_splits sum.splits
            dest!: EncryptPage_length)
  qed
  have ne: "0 < length (st_buf s)" using q by simp
  consider (stopped) r where "encrypt_step L e ctx_Done plainDB encKey macKey s = Inl (Some r, st_out s)"
    | (ended) "encrypt_step L e ctx_Done plainDB encKey macKey s = Inl (None, st_out s)"
        "length (file_data f) \<le> offset f"
    | (last) "encrypt_step L e ctx_Done plainDB encKey macKey s = rest (Some ErrUnexpectedEOF) (f\<lparr>offset := length (file_data f)\<rparr>)"
        "length (file_data f) < offset f + q"
    | (whole) "encrypt_step L e ctx_Done plainDB encKey macKey s = rest None (f\<lparr>offset := offset f + q\<rparr>)"
  proof (cases "ctx_Done (st_page s)")
    case True
    then show ?thesis by (intro stopped [of Cancelled]) (simp add: encrypt_step_def)
  next
    case live: False
    from ne show ?thesis
    proof (cases rule: io_ReadFull_cases [where f = f])
      case full
      have zf: "zero_fill (take q (drop (offset f) (file_data f))) (int q) (int q) = Inr page"
        using full(2) q by (simp add: zero_fill_def page_def next_page_def)
      show ?thesis
        using live q
        by (intro whole) (simp add: encrypt_step_def f_def [symmetric] full(1) zf rest_def)
    next
      case (device n buf' f')
      with live show ?thesis
        by (intro stopped [of "ReadFileFailed plainDB"])
           (simp add: encrypt_step_def f_def [symmetric])
    next
      case (eof buf' f')
      with live show ?thesis
        by (intro ended) (simp_all add: encrypt_step_def f_def [symmetric])
    next
      case (short n)
      have zf: "zero_fill (drop (offset f) (file_data f) @ drop n (st_buf s)) (int n) (int q)
                  = Inr page"
      proof -
        have ln: "length (drop (offset f) (file_data f)) = n" using short by simp
        have "zero_fill (drop (offset f) (file_data f) @ drop n (st_buf s)) (int n) (int q)
                = Inr (take n (drop (offset f) (file_data f) @ drop n (st_buf s))
                       @ replicate (q - n) 0)"
          using short q ln by (intro zero_fill_short) simp_all
        also have "take n (drop (offset f) (file_data f) @ drop n (st_buf s))
                     = drop (offset f) (file_data f)"
          using ln by simp
        also have "drop (offset f) (file_data f) @ replicate (q - n) 0 = page"
          using short q ln by (simp add: page_def next_page_def)
        finally show ?thesis .
      qed
      have o: "offset f + n = length (file_data f)" using short by linarith
      have lt: "length (file_data f) < offset f + q" using short q by linarith
      show ?thesis
        using live short(3) lt
        by (intro last) (simp_all add: encrypt_step_def f_def [symmetric] short(1) zf rest_def
              q(3) o)
    qed
  qed
  note outcome = this
  show "encrypt_step L e ctx_Done plainDB encKey macKey s = Inr s' \<Longrightarrow>
           \<exists>P. written (st_out s') = written (st_out s) @ P \<and> length P = q
               \<and> (next_page (st_file s) q = replicate q 0 \<longrightarrow> P = replicate q 0)"
  proof -
    assume st: "encrypt_step L e ctx_Done plainDB encKey macKey s = Inr s'"
    from outcome show ?thesis
    proof cases
      case (stopped r)
      with st show ?thesis by simp
    next
      case ended
      with st show ?thesis by simp
    next
      case last
      with st body [of "Some ErrUnexpectedEOF" "f\<lparr>offset := length (file_data f)\<rparr>" "Inr s'" "st_out s'"]
      show ?thesis by (simp add: page_def f_def)
    next
      case whole
      with st body [of None "f\<lparr>offset := offset f + q\<rparr>" "Inr s'" "st_out s'"]
      show ?thesis by (simp add: page_def f_def)
    qed
  qed
  show "encrypt_step L e ctx_Done plainDB encKey macKey s = Inl (None, w) \<Longrightarrow>
           (w = st_out s \<and> length (file_data (st_file s)) \<le> offset (st_file s))
           \<or> (\<exists>P. written w = written (st_out s) @ P \<and> length P = q
                 \<and> (next_page (st_file s) q = replicate q 0 \<longrightarrow> P = replicate q 0)
                 \<and> length (file_data (st_file s)) < offset (st_file s) + q)"
  proof -
    assume st: "encrypt_step L e ctx_Done plainDB encKey macKey s = Inl (None, w)"
    from outcome show ?thesis
    proof cases
      case (stopped r)
      with st show ?thesis by simp
    next
      case ended
      with st show ?thesis by (simp add: f_def)
    next
      case last
      with st body [of "Some ErrUnexpectedEOF" "f\<lparr>offset := length (file_data f)\<rparr>" "Inl (None, w)" w]
      show ?thesis by (simp add: page_def f_def)
    next
      case whole
      have "rest None (f\<lparr>offset := offset f + q\<rparr>) \<noteq> Inl (None, w)"
        by (auto simp: rest_def split: prod.splits sum.splits)
      with st whole show ?thesis by simp
    qed
  qed
qed

lemma encrypt_pages_zero_pages:
  assumes "encrypt_pages L e ctx_Done plainDB encKey macKey s = Some (None, w)"
    and "0 < q" "length (st_buf s) = q" "v4_pageSize e = int q"
  shows "\<exists>X. written w = written (st_out s) @ X
           \<and> (\<forall>k. offset (st_file s) + k * q < length (file_data (st_file s))
                 \<and> next_page ((st_file s)\<lparr>offset := offset (st_file s) + k * q\<rparr>) q
                      = replicate q 0
                 \<longrightarrow> sub X (k * q) (k * q + q) = replicate q 0)"
  using assms
proof (induction "length (file_data (st_file s)) - offset (st_file s)" arbitrary: s
        rule: less_induct)
  case less
  note q = less.prems(2-4)
  let ?f = "st_file s"
  show ?case
  proof (cases "encrypt_step L e ctx_Done plainDB encKey macKey s")
    case (Inl r)
    with less.prems(1) have r: "r = (None, w)"
      by (subst (asm) encrypt_pages.simps) simp
    from encrypt_step_output(2) [OF q Inl [unfolded r]]
    consider (ended) "w = st_out s" "length (file_data ?f) \<le> offset ?f"
      | (last) P where "written w = written (st_out s) @ P" "length P = q"
          "next_page ?f q = replicate q 0 \<longrightarrow> P = replicate q 0"
          "length (file_data ?f) < offset ?f + q"
      by blast
    then show ?thesis
    proof cases
      case ended
      then show ?thesis by (intro exI [of _ "[]"]) simp
    next
      case last
      have "sub P (k * q) (k * q + q) = replicate q 0"
        if "offset ?f + k * q < length (file_data ?f)"
          and "next_page (?f\<lparr>offset := offset ?f + k * q\<rparr>) q = replicate q 0" for k
      proof -
        from that(1) last(4) have "k * q < q" by linarith
        then have "k = 0" by simp
        with that(2) last(2,3) show ?thesis by (simp add: sub_def)
      qed
      with last(1) show ?thesis by blast
    qed
  next
    case (Inr s')
    with less.prems(1) have run: "encrypt_pages L e ctx_Done plainDB encKey macKey s' = Some (None, w)"
      by (subst (asm) encrypt_pages.simps) simp
    from q have ne: "0 < length (st_buf s)" by simp
    note nx = encrypt_step_next [OF Inr ne]
    from nx q have f': "st_file s' = ?f\<lparr>offset := offset ?f + q\<rparr>"
      and fits: "offset ?f + q \<le> length (file_data ?f)"
      and buf': "length (st_buf s') = q"
      by simp_all
    from encrypt_step_output(1) [OF q Inr]
    obtain P where P: "written (st_out s') = written (st_out s) @ P" "length P = q"
      "next_page ?f q = replicate q 0 \<longrightarrow> P = replicate q 0"
      by blast
    have "length (file_data (st_file s')) - offset (st_file s')
            < length (file_data ?f) - offset ?f"
      using f' fits q(1) by simp
    from less.hyps [OF this run q(1) buf' q(3)]
    obtain X where X: "written w = written (st_out s') @ X"
      "\<And>k. offset (st_file s') + k * q < length (file_data (st_file s')) \<Longrightarrow>
          next_page ((st_file s')\<lparr>offset := offset (st_file s') + k * q\<rparr>) q = replicate q 0 \<Longrightarrow>
          sub X (k * q) (k * q + q) = replicate q 0"
      by blast
    have "sub (P @ X) (k * q) (k * q + q) = replicate q 0"
      if lt: "offset ?f + k * q < length (file_data ?f)"
        and z: "next_page (?f\<lparr>offset := offset ?f + k * q\<rparr>) q = replicate q 0" for k
    proof (cases k)
      case 0
      with z P(2,3) show ?thesis by (simp add: sub_def)
    next
      case (Suc j)
      have "sub X (j * q) (j * q + q) = replicate q 0"
        using lt z by (intro X(2)) (simp_all add: f' Suc ac_simps)
      then show ?thesis
        using P(2) by (simp add: sub_def Suc)
    qed
    with X(1) P(1) show ?thesis by (intro exI [of _ "P @ X"]) simp
  qed
qed

lemma io_ReadFull_empty: "io_ReadFull f [] = (0, None, [], f)"
  by (simp add: io_ReadFull_def)

lemma encrypt_first_page_InrE:
  assumes ok: "encrypt_first_page L R e plainDB hexKey rng
             = Inr (encryptedPage, plainFile, rng', encKey, macKey)"
  obtains fp0 n0 f1 n err p1 firstPlain
  where "os_Open R plainDB = Some fp0"
    and "io_ReadFull fp0 (replicate 16 0) = (n0, None, SQLiteHeader, f1)"
    and "io_ReadFull f1 (replicate (nat (v4_pageSize e - 16)) 0) = (n, err, p1, plainFile)"
    and "err \<noteq> Some ErrDevice" and "16 \<le> v4_pageSize e"
    and "EncryptPage L firstPlain encKey macKey 0 (v4_hashFunc e) (v4_hmacSize e)
           (v4_reserve e) (v4_pageSize e) = Inr encryptedPage"
proof -
  have l: "len SQLiteHeader = 16" by (simp add: len_def SQLiteHeader_def)
  from ok obtain key where k: "hex_DecodeString R hexKey = Some key"
    by (cases "hex_DecodeString R hexKey") (simp_all add: encrypt_first_page_def)
  from ok k have kl: "len key = KeySize"
    by (simp add: encrypt_first_page_def split: if_splits)
  from ok k kl obtain fp0 where o: "os_Open R plainDB = Some fp0"
    by (cases "os_Open R plainDB") (simp_all add: encrypt_first_page_def)
  from ok k kl o have st: "\<not> stat_fails fp0"
    by (simp add: encrypt_first_page_def split: if_splits)
  obtain n0 e0 hd f1 where r1: "io_ReadFull fp0 (replicate 16 0) = (n0, e0, hd, f1)"
    by (metis prod_cases4)
  from ok k kl o st r1 have e0: "e0 = None" and hd: "hd = SQLiteHeader"
    by (auto simp: encrypt_first_page_def make_bytes_def l split: if_splits)
  from ok k kl o st r1 e0 hd have ps: "16 \<le> v4_pageSize e"
    by (auto simp: encrypt_first_page_def make_bytes_def l split: if_splits)
  obtain n err p1 f2
    where r2: "io_ReadFull f1 (replicate (nat (v4_pageSize e - 16)) 0) = (n, err, p1, f2)"
    by (metis prod_cases4)
  from ok k kl o st r1 e0 hd ps r2
  have "err \<noteq> Some ErrDevice \<and> f2 = plainFile
        \<and> (\<exists>firstPlain. EncryptPage L firstPlain encKey macKey 0 (v4_hashFunc e)
              (v4_hmacSize e) (v4_reserve e) (v4_pageSize e) = Inr encryptedPage)"
    by (auto simp: encrypt_first_page_def make_bytes_def l andThen_eq_Inr case_prod_beta
          split: if_splits option.splits) blast+
  with o r1 e0 hd r2 ps that show thesis by blast
qed


corollary Encrypt_zero_pages:
  assumes run: "Encrypt L R e ctx_Done plainDB hexKey rng out = Some (None, w)"
    and fp: "file_at R plainDB = Some fp"
    and q: "v4_pageSize e = int q"
    and k: "1 \<le> k" "k * q < length (file_data fp)"
    and z: "page_at fp q k = replicate q 0"
  shows "sub (written w) (length (written out) + k * q) (length (written out) + k * q + q)
           = replicate q 0"
proof -
  from run obtain encryptedPage plainFile rng' encKey macKey
    where first: "encrypt_first_page L R e plainDB hexKey rng
                    = Inr (encryptedPage, plainFile, rng', encKey, macKey)"
    by (cases "encrypt_first_page L R e plainDB hexKey rng")
       (auto simp: Encrypt_def)
  from first obtain fp0 n0 f1 n err p1 firstPlain
    where o: "os_Open R plainDB = Some fp0"
      and r1: "io_ReadFull fp0 (replicate 16 0) = (n0, None, SQLiteHeader, f1)"
      and r2: "io_ReadFull f1 (replicate (nat (v4_pageSize e - 16)) 0) = (n, err, p1, plainFile)"
      and dev: "err \<noteq> Some ErrDevice" and ps: "16 \<le> v4_pageSize e"
      and ep: "EncryptPage L firstPlain encKey macKey 0 (v4_hashFunc e) (v4_hmacSize e)
                 (v4_reserve e) (v4_pageSize e) = Inr encryptedPage"
    by (rule encrypt_first_page_InrE)
  from ps q have q16: "16 \<le> q" by simp
  from k q16 have big: "q < length (file_data fp)"
    by (metis One_nat_def Suc_le_eq le_trans less_le_trans mult_le_mono1 nat_mult_1 not_le)
  have fp0: "fp0 = fp\<lparr>offset := 0\<rparr>" using o fp by (simp add: os_Open_def)
  have f1: "f1 = fp\<lparr>offset := 16\<rparr>"
    using io_ReadFull_full [OF r1] by (simp add: fp0)
  have pf: "plainFile = fp\<lparr>offset := q\<rparr>"
  proof (cases "q = 16")
    case True
    with r2 q show ?thesis by (simp add: io_ReadFull_empty f1)
  next
    case False
    with q16 have ne: "0 < length (replicate (q - 16) (0 :: byte))" by simp
    from ne show ?thesis
    proof (cases rule: io_ReadFull_cases [where f = f1])
      case full
      with r2 q q16 show ?thesis by (simp add: f1 nat_diff_distrib')
    next
      case (device n' buf' f')
      with r2 q dev show ?thesis by (simp add: nat_diff_distrib')
    next
      case (eof buf' f')
      with big q16 show ?thesis by (simp add: f1)
    next
      case (short n')
      with big q16 show ?thesis by (simp add: f1)
    qed
  qed
  have le: "length encryptedPage = q"
    using EncryptPage_length [OF ep] q by (simp add: len_def)
  obtain w1 ok where wr: "Write out encryptedPage = (w1, ok)"
    by (cases "Write out encryptedPage") auto
  from run first wr have ok: "ok"
    by (auto simp: Encrypt_def split: if_splits)
  have w1: "written w1 = written out @ encryptedPage"
    using wr ok by (simp add: Write_appends)
  define s where "s = \<lparr> st_file = plainFile, st_rand = rng', st_out = w1,
                         st_buf = replicate q 0, st_page = 1 \<rparr>"
  have loop: "encrypt_pages L e ctx_Done plainDB encKey macKey s = Some (None, w)"
    using run first wr ok q by (simp add: Encrypt_def make_bytes_def s_def)
  from encrypt_pages_zero_pages [OF loop, of q] q q16
  obtain X where X: "written w = written (st_out s) @ X"
    "\<And>j. offset (st_file s) + j * q < length (file_data (st_file s)) \<Longrightarrow>
        next_page ((st_file s)\<lparr>offset := offset (st_file s) + j * q\<rparr>) q = replicate q 0 \<Longrightarrow>
        sub X (j * q) (j * q + q) = replicate q 0"
    by (auto simp: s_def)
  from k(1) obtain j where j: "k = Suc j" by (cases k) auto
  have "sub X (j * q) (j * q + q) = replicate q 0"
    using k(2) z by (intro X(2)) (simp_all add: s_def pf j page_at_def ac_simps)
  then show ?thesis
    using X(1) w1 le by (simp add: sub_def s_def j ac_simps)
qed

end
